theory Spec2Isabelle
  imports Complex_Main "HOL-Library.AList" "HOL-Library.Multiset" "HOL-Library.Sublist"
begin

chapter \<open>The model\<close>

section \<open>Python values: exceptions, dictionaries, floats\<close>

text \<open>
  Exceptions of the source are values: a function that can raise returns
  \<open>py_error + 'a\<close>, with \<open>Inl\<close> the exception, and \<open>bind_err\<close> sequences two such
  computations as Python does (the first exception wins).
\<close>

datatype py_error =
    KeyError | ValueError | TypeError | AssertionError | AttributeError | IndexError
  | ZeroDivisionError | NotEnoughBlocks

definition bind_err :: "py_error + 'a \<Rightarrow> ('a \<Rightarrow> py_error + 'b) \<Rightarrow> py_error + 'b" where
  "bind_err x f = (case x of Inl e \<Rightarrow> Inl e | Inr v \<Rightarrow> f v)"

text \<open>
  A Python \<open>dict\<close> is an association list in insertion order: \<open>d[k]\<close> is \<open>dict_get\<close>
  (a missing key raises \<open>KeyError\<close>), \<open>d[k] = v\<close> is \<open>AList.update\<close> (an existing key keeps
  its place, a new key goes to the end), \<open>d.keys()\<close> is \<open>map fst\<close> and \<open>d.values()\<close> is
  \<open>map snd\<close>. A dictionary holds no key twice (\<open>is_dict\<close>).
  \<open>dict_comp ks f d\<close> is the loop \<open>for k in ks: d[k] = f(k)\<close>, which is also the
  comprehension \<open>{k: f(k) for k in ks}\<close> when \<open>d\<close> is empty.
\<close>

definition dict_get :: "('k \<times> 'v) list \<Rightarrow> 'k \<Rightarrow> py_error + 'v" where
  "dict_get d k = (case map_of d k of None \<Rightarrow> Inl KeyError | Some v \<Rightarrow> Inr v)"

definition is_dict :: "('k \<times> 'v) list \<Rightarrow> bool" where
  "is_dict d = distinct (map fst d)"

fun dict_comp ::
  "'k list \<Rightarrow> ('k \<Rightarrow> py_error + 'v) \<Rightarrow> ('k \<times> 'v) list \<Rightarrow> py_error + ('k \<times> 'v) list" where
  "dict_comp [] f d = Inr d"
| "dict_comp (k # ks) f d = bind_err (f k) (\<lambda>v. dict_comp ks f (AList.update k v d))"

text \<open>\<open>for_each xs body s\<close> is the loop \<open>for x in xs: body\<close> over the state \<open>s\<close>.\<close>

fun for_each :: "'a list \<Rightarrow> ('a \<Rightarrow> 's \<Rightarrow> py_error + 's) \<Rightarrow> 's \<Rightarrow> py_error + 's" where
  "for_each [] body s = Inr s"
| "for_each (x # xs) body s = bind_err (body x s) (for_each xs body)"

text \<open>
  Python's builtin \<open>max\<close> over a non-empty sequence \<open>m, xs\<close>: the running maximum is
  replaced only by a strictly greater element.
\<close>

fun py_max :: "'a::linorder \<Rightarrow> 'a list \<Rightarrow> 'a" where
  "py_max m [] = m"
| "py_max m (x # xs) = py_max (if x > m then x else m) xs"

text \<open>
  Floats. Budgets hold finite floats, modelled as real numbers (rounding is outside
  the model). Where the source produces or consumes \<open>inf\<close> and \<open>nan\<close> (numpy arithmetic,
  \<open>float("inf")\<close>), the value is a \<open>pyfloat\<close>. The operations follow IEEE 754 as numpy
  applies it (no exception, only a warning, on a division by zero); signed zeros are
  not distinguished.
\<close>

datatype pyfloat = Fin real | PInf | NInf | NaN

fun pf_add :: "pyfloat \<Rightarrow> pyfloat \<Rightarrow> pyfloat" where
  "pf_add (Fin a) (Fin b) = Fin (a + b)"
| "pf_add NaN _ = NaN"
| "pf_add _ NaN = NaN"
| "pf_add PInf NInf = NaN"
| "pf_add NInf PInf = NaN"
| "pf_add PInf _ = PInf"
| "pf_add _ PInf = PInf"
| "pf_add NInf _ = NInf"
| "pf_add _ NInf = NInf"

fun pf_neg :: "pyfloat \<Rightarrow> pyfloat" where
  "pf_neg (Fin a) = Fin (- a)"
| "pf_neg PInf = NInf"
| "pf_neg NInf = PInf"
| "pf_neg NaN = NaN"

definition pf_sub :: "pyfloat \<Rightarrow> pyfloat \<Rightarrow> pyfloat" where
  "pf_sub a b = pf_add a (pf_neg b)"

fun pf_mul :: "pyfloat \<Rightarrow> pyfloat \<Rightarrow> pyfloat" where
  "pf_mul (Fin a) (Fin b) = Fin (a * b)"
| "pf_mul NaN _ = NaN"
| "pf_mul _ NaN = NaN"
| "pf_mul PInf (Fin b) = (if b > 0 then PInf else if b < 0 then NInf else NaN)"
| "pf_mul NInf (Fin b) = (if b > 0 then NInf else if b < 0 then PInf else NaN)"
| "pf_mul (Fin a) PInf = (if a > 0 then PInf else if a < 0 then NInf else NaN)"
| "pf_mul (Fin a) NInf = (if a > 0 then NInf else if a < 0 then PInf else NaN)"
| "pf_mul PInf PInf = PInf"
| "pf_mul NInf NInf = PInf"
| "pf_mul PInf NInf = NInf"
| "pf_mul NInf PInf = NInf"

fun pf_div :: "pyfloat \<Rightarrow> pyfloat \<Rightarrow> pyfloat" where
  "pf_div (Fin a) (Fin b) =
     (if b \<noteq> 0 then Fin (a / b) else if a > 0 then PInf else if a < 0 then NInf else NaN)"
| "pf_div NaN _ = NaN"
| "pf_div _ NaN = NaN"
| "pf_div (Fin a) _ = Fin 0"
| "pf_div PInf (Fin b) = (if b \<ge> 0 then PInf else NInf)"
| "pf_div NInf (Fin b) = (if b \<ge> 0 then NInf else PInf)"
| "pf_div _ _ = NaN"

fun pf_exp :: "pyfloat \<Rightarrow> pyfloat" where
  "pf_exp (Fin a) = Fin (exp a)"
| "pf_exp PInf = PInf"
| "pf_exp NInf = Fin 0"
| "pf_exp NaN = NaN"

fun pf_log :: "pyfloat \<Rightarrow> pyfloat" where
  "pf_log (Fin a) = (if a > 0 then Fin (ln a) else if a = 0 then NInf else NaN)"
| "pf_log PInf = PInf"
| "pf_log _ = NaN"

fun pf_less :: "pyfloat \<Rightarrow> pyfloat \<Rightarrow> bool" where
  "pf_less (Fin a) (Fin b) = (a < b)"
| "pf_less NaN _ = False"
| "pf_less _ NaN = False"
| "pf_less NInf b = (b \<noteq> NInf)"
| "pf_less a PInf = (a \<noteq> PInf)"
| "pf_less _ _ = False"

definition pf_le :: "pyfloat \<Rightarrow> pyfloat \<Rightarrow> bool" where
  "pf_le a b = (pf_less a b \<or> (a = b \<and> a \<noteq> NaN))"

text \<open>The division of two Python floats raises on a zero divisor.\<close>

definition py_truediv :: "pyfloat \<Rightarrow> pyfloat \<Rightarrow> py_error + pyfloat" where
  "py_truediv a b = (if b = Fin 0 then Inl ZeroDivisionError else Inr (pf_div a b))"

section \<open>The RDP budget: \<open>budget.py\<close>\<close>

text \<open>
  \<open>DPBudget\<close> is the named tuple \<open>(epsilon, delta, best_alpha)\<close>. A \<open>Budget\<close> object
  holds the private dictionary \<open>__orders\<close> (alpha to epsilon, smallest alpha first) and,
  once \<open>dp_budget\<close> has run, the attribute \<open>dp_budget_cached\<close>; the attribute being
  absent is \<open>None\<close>. The type of the epsilons is a parameter: \<open>real\<close> for finite
  curves, \<open>pyfloat\<close> where numpy arithmetic fills the curve.
\<close>

record DPBudget =
  dp_epsilon :: real
  dp_delta :: real
  dp_best_alpha :: real

record 'v budget =
  orders :: "(real \<times> 'v) list"
  dp_budget_cached :: "DPBudget option"

text \<open>
  \<open>Budget.__init__\<close>: \<open>for alpha in sorted(orders): self.__orders[alpha] = orders[alpha]\<close>,
  the entries of the given dictionary inserted in the order of their keys.
\<close>

definition Budget_init :: "(real \<times> 'v) list \<Rightarrow> 'v budget" where
  "Budget_init d =
     \<lparr>orders = fold (\<lambda>(alpha, e) acc. AList.update alpha e acc) (sort_key fst d) [],
      dp_budget_cached = None\<rparr>"

definition alphas :: "'v budget \<Rightarrow> real list" where
  "alphas b = map fst (orders b)"

definition epsilons :: "'v budget \<Rightarrow> 'v list" where
  "epsilons b = map snd (orders b)"

definition epsilon :: "'v budget \<Rightarrow> real \<Rightarrow> py_error + 'v" where
  "epsilon b alpha = dict_get (orders b) alpha"

text \<open>
  \<open>from_epsilon_delta\<close>: \<open>orders[alpha] = max(epsilon + np.log(delta) / (alpha - 1), 0)\<close>
  for each alpha of the list. \<open>np.log\<close> returns a numpy float, so the division is numpy's
  (no exception at \<open>alpha = 1\<close>), and the builtin \<open>max(x, 0)\<close> returns \<open>0\<close> only when
  \<open>0 > x\<close>.
\<close>

definition rdp_lower_envelope :: "real \<Rightarrow> real \<Rightarrow> real \<Rightarrow> pyfloat" where
  "rdp_lower_envelope eps dlt alpha =
     (let x = pf_add (Fin eps) (pf_div (pf_log (Fin dlt)) (Fin (alpha - 1)))
      in if pf_less x (Fin 0) then Fin 0 else x)"

definition from_epsilon_delta :: "real \<Rightarrow> real \<Rightarrow> real list \<Rightarrow> pyfloat budget" where
  "from_epsilon_delta eps dlt alpha_list =
     Budget_init
       (fold (\<lambda>alpha orders. AList.update alpha (rdp_lower_envelope eps dlt alpha) orders)
          alpha_list [])"

definition is_positive_all_alphas :: "real budget \<Rightarrow> bool" where
  "is_positive_all_alphas b = list_all (\<lambda>e. \<not> e < 0) (epsilons b)"

text \<open>
  \<open>dp_budget\<close>. The conversion \<open>get_privacy_spent\<close> belongs to the opacus library; it is
  the parameter \<open>gps\<close> (orders, rdp, delta to epsilon and best alpha, or an exception).
  The method returns the triple and the object, whose cache it may have filled.
\<close>

definition dp_budget ::
  "(real list \<Rightarrow> real list \<Rightarrow> real \<Rightarrow> py_error + real \<times> real) \<Rightarrow>
   real budget \<Rightarrow> real \<Rightarrow> py_error + DPBudget \<times> real budget" where
  "dp_budget gps self dlt =
     (case dp_budget_cached self of
        Some cached \<Rightarrow> Inr (cached, self)
      | None \<Rightarrow>
          bind_err (gps (alphas self) (epsilons self) dlt) (\<lambda>(eps, best).
            let cached = \<lparr>dp_epsilon = eps, dp_delta = dlt, dp_best_alpha = best\<rparr>
            in Inr (cached, self\<lparr>dp_budget_cached := Some cached\<rparr>)))"

text \<open>
  \<open>same_support\<close>: the alphas of both budgets, sorted
  (\<open>sorted(set(budget1.alphas).intersection(budget2.alphas))\<close>), and both budgets
  rebuilt on them.
\<close>

definition shared_alphas :: "'v budget \<Rightarrow> 'w budget \<Rightarrow> real list" where
  "shared_alphas budget1 budget2 =
     sort (remdups (filter (\<lambda>a. a \<in> set (alphas budget2)) (alphas budget1)))"

definition same_support :: "'v budget \<Rightarrow> 'v budget \<Rightarrow> py_error + ('v budget \<times> 'v budget)" where
  "same_support budget1 budget2 =
     (let ordered_support = shared_alphas budget1 budget2 in
      bind_err (dict_comp ordered_support (epsilon budget1) []) (\<lambda>orders1.
      bind_err (dict_comp ordered_support (epsilon budget2) []) (\<lambda>orders2.
      Inr (Budget_init orders1, Budget_init orders2))))"

text \<open>\<open>__sub__\<close>: the difference on the shared support.\<close>

definition budget_sub :: "real budget \<Rightarrow> real budget \<Rightarrow> py_error + real budget" where
  "budget_sub self other =
     bind_err (same_support self other) (\<lambda>(a, b).
     bind_err (dict_comp (alphas a)
                 (\<lambda>alpha. bind_err (epsilon a alpha) (\<lambda>x.
                            bind_err (epsilon b alpha) (\<lambda>y. Inr (x - y)))) [])
       (\<lambda>d. Inr (Budget_init d)))"

text \<open>
  \<open>can_allocate\<close>: the assertion on the demand, then \<open>max(diff.epsilons) >= 0\<close>; the
  builtin \<open>max\<close> raises \<open>ValueError\<close> on an empty sequence.
\<close>

definition can_allocate :: "real budget \<Rightarrow> real budget \<Rightarrow> py_error + bool" where
  "can_allocate self demand_budget =
     (if \<not> is_positive_all_alphas demand_budget then Inl AssertionError
      else bind_err (budget_sub self demand_budget) (\<lambda>diff.
        case epsilons diff of
          [] \<Rightarrow> Inl ValueError
        | e # es \<Rightarrow> (let max_order = py_max e es in
                     if max_order \<ge> 0 then Inr True else Inr False)))"

text \<open>
  \<open>__eq__\<close>: the loop over \<open>self.alphas\<close>, leaving with \<open>False\<close> at the first alpha
  where the epsilons differ; \<open>other.epsilon(alpha)\<close> is evaluated first and raises
  \<open>KeyError\<close> when \<open>other\<close> has no such alpha.
\<close>

fun eq_loop :: "real budget \<Rightarrow> real budget \<Rightarrow> real list \<Rightarrow> py_error + bool" where
  "eq_loop self other [] = Inr True"
| "eq_loop self other (alpha # rest) =
     bind_err (epsilon other alpha) (\<lambda>x.
     bind_err (epsilon self alpha) (\<lambda>y.
       if x \<noteq> y then Inr False else eq_loop self other rest))"

definition budget_eq :: "real budget \<Rightarrow> real budget \<Rightarrow> py_error + bool" where
  "budget_eq self other = eq_loop self other (alphas self)"

text \<open>
  Two notions for the proofs, not part of the program: the epsilon stored at an alpha of
  the support, and the budget that tabulates a function over a list of alphas.
\<close>

definition eps_at :: "'v budget \<Rightarrow> real \<Rightarrow> 'v" where
  "eps_at b alpha = the (map_of (orders b) alpha)"

definition tabulate :: "real list \<Rightarrow> (real \<Rightarrow> 'v) \<Rightarrow> 'v budget" where
  "tabulate ks g = \<lparr>orders = map (\<lambda>k. (k, g k)) ks, dp_budget_cached = None\<rparr>"

section \<open>Block selection policies: \<open>block_selection.py\<close>\<close>

text \<open>
  The policies draw from Python's and numpy's global random generators. The generator is
  an explicit stream of draws \<open>g\<close> (\<open>g 0\<close> is the next draw), so that a statement for
  every \<open>g\<close> is a statement for every outcome of the randomness.

  The library calls are modelled by their contract. \<open>random.sample(population, k)\<close> picks
  \<open>k\<close> positions of the population without replacement, in the order drawn, and raises
  \<open>ValueError\<close> when \<open>k\<close> is negative or exceeds the population. \<open>random.randint(a, b)\<close>
  returns an integer of \<open>[a, b]\<close> and raises \<open>ValueError\<close> on an empty range.
  \<open>np.random.choice(a, size, replace=False, p=p)\<close> checks \<open>p\<close> (one entry per index, none
  negative, summing to 1 within \<open>sqrt(eps)\<close>), then the size, and samples without
  replacement among the indices of positive probability. \<open>range(a, b)\<close> is \<open>py_range\<close>.
\<close>

type_synonym rng = "nat \<Rightarrow> nat"

definition py_range :: "int \<Rightarrow> int \<Rightarrow> int list" where
  "py_range a b = [a..b - 1]"

fun sample_from :: "rng \<Rightarrow> 'a list \<Rightarrow> nat \<Rightarrow> 'a list" where
  "sample_from g pool 0 = []"
| "sample_from g pool (Suc k) =
     (let j = g 0 mod length pool
      in pool ! j # sample_from (\<lambda>i. g (Suc i)) (take j pool @ drop (Suc j) pool) k)"

definition random_sample :: "rng \<Rightarrow> 'a list \<Rightarrow> int \<Rightarrow> py_error + 'a list" where
  "random_sample g population k =
     (if k < 0 \<or> int (length population) < k then Inl ValueError
      else Inr (sample_from g population (nat k)))"

definition random_randint :: "rng \<Rightarrow> int \<Rightarrow> int \<Rightarrow> py_error + int" where
  "random_randint g a b =
     (if b < a then Inl ValueError else Inr (a + int (g 0 mod nat (b - a + 1))))"

definition np_random_choice :: "rng \<Rightarrow> int \<Rightarrow> int \<Rightarrow> real list \<Rightarrow> py_error + int list" where
  "np_random_choice g a sz p =
     (if a \<le> 0 \<and> sz \<noteq> 0 then Inl ValueError
      else if int (length p) \<noteq> a then Inl ValueError
      else if list_ex (\<lambda>x. x < 0) p then Inl ValueError
      else if \<bar>sum_list p - 1\<bar> > 1 / 2 ^ 26 then Inl ValueError
      else if a < sz \<or> sz < 0 then Inl ValueError
      else if int (length (filter (\<lambda>x. x > 0) p)) < sz then Inl ValueError
      else Inr (sample_from g (filter (\<lambda>i. p ! nat i > 0) (py_range 0 a)) (nat sz)))"

text \<open>
  The policies. \<open>blocks\<close> is the dictionary of the available blocks, of which only the
  length is read; \<open>task_blocks_num\<close> is a Python integer. The iterators and ranges that
  \<open>LatestBlocksFirst\<close> and \<open>ContiguousBlocksRandomOffset\<close> return are the lists of their
  elements.
\<close>

definition RandomBlocks_select_blocks ::
  "rng \<Rightarrow> (int \<times> 'b) list \<Rightarrow> int \<Rightarrow> py_error + int list" where
  "RandomBlocks_select_blocks g blocks task_blocks_num =
     (let n_blocks = int (length blocks);
          blocks_num = py_range 0 n_blocks
      in if task_blocks_num > n_blocks then Inl NotEnoughBlocks
         else random_sample g blocks_num task_blocks_num)"

definition LatestBlocksFirst_select_blocks ::
  "rng \<Rightarrow> (int \<times> 'b) list \<Rightarrow> int \<Rightarrow> py_error + int list" where
  "LatestBlocksFirst_select_blocks g blocks task_blocks_num =
     (let n_blocks = int (length blocks)
      in if task_blocks_num > n_blocks then Inl NotEnoughBlocks
         else Inr (rev (py_range (n_blocks - task_blocks_num) n_blocks)))"

definition BiasedRandomBlocks_select_blocks ::
  "rng \<Rightarrow> (int \<times> 'b) list \<Rightarrow> int \<Rightarrow> py_error + int list" where
  "BiasedRandomBlocks_select_blocks g blocks task_blocks_num =
     (let n_blocks = int (length blocks);
          blocks_num = py_range 0 n_blocks
      in if task_blocks_num > n_blocks then Inl NotEnoughBlocks
         else
           let selection = g 0 mod 2;
               g' = (\<lambda>i. g (Suc i))
           in if selection = 0 then
                let even_block_ids = filter (\<lambda>i. i mod 2 = 0) blocks_num;
                    odd_block_ids = filter (\<lambda>i. i mod 2 \<noteq> 0) blocks_num;
                    diff = task_blocks_num - int (length even_block_ids)
                in if diff > 0 then
                     bind_err (random_sample g' odd_block_ids diff)
                       (\<lambda>sampled. Inr (even_block_ids @ sampled))
                   else random_sample g' even_block_ids task_blocks_num
              else random_sample g' blocks_num task_blocks_num)"

definition ContiguousBlocksRandomOffset_select_blocks ::
  "rng \<Rightarrow> (int \<times> 'b) list \<Rightarrow> int \<Rightarrow> py_error + int list" where
  "ContiguousBlocksRandomOffset_select_blocks g blocks task_blocks_num =
     (let n_blocks = int (length blocks)
      in if task_blocks_num > n_blocks then Inl NotEnoughBlocks
         else bind_err (random_randint g 0 (n_blocks - task_blocks_num))
                (\<lambda>offset. Inr (py_range offset (offset + task_blocks_num))))"

text \<open>
  \<open>Zeta(s)\<close>: the density \<open>(k + 1) ** (-s)\<close> over the indices, divided by its sum
  (the division of an empty numpy array by \<open>0\<close> leaves it empty).
\<close>

definition zeta_density :: "real \<Rightarrow> int \<Rightarrow> real list" where
  "zeta_density s n_blocks =
     (let density = map (\<lambda>k. real_of_int (k + 1) powr (- s)) (py_range 0 n_blocks)
      in map (\<lambda>d. d / sum_list density) density)"

definition Zeta_select_blocks ::
  "real \<Rightarrow> rng \<Rightarrow> (int \<times> 'b) list \<Rightarrow> int \<Rightarrow> py_error + int list" where
  "Zeta_select_blocks s g blocks task_blocks_num =
     (let n_blocks = int (length blocks)
      in if task_blocks_num > n_blocks then Inl NotEnoughBlocks
         else np_random_choice g n_blocks task_blocks_num (zeta_density s n_blocks))"

datatype policy =
    RandomBlocks | LatestBlocksFirst | BiasedRandomBlocks | ContiguousBlocksRandomOffset
  | Zeta real

fun select_blocks :: "policy \<Rightarrow> rng \<Rightarrow> (int \<times> 'b) list \<Rightarrow> int \<Rightarrow> py_error + int list" where
  "select_blocks RandomBlocks = RandomBlocks_select_blocks"
| "select_blocks LatestBlocksFirst = LatestBlocksFirst_select_blocks"
| "select_blocks BiasedRandomBlocks = BiasedRandomBlocks_select_blocks"
| "select_blocks ContiguousBlocksRandomOffset = ContiguousBlocksRandomOffset_select_blocks"
| "select_blocks (Zeta s) = Zeta_select_blocks s"

text \<open>What a selection of \<open>k\<close> blocks among \<open>n\<close> has to be.\<close>

definition valid_selection :: "int \<Rightarrow> int \<Rightarrow> int list \<Rightarrow> bool" where
  "valid_selection n k xs =
     (int (length xs) = k \<and> distinct xs \<and> list_all (\<lambda>x. 0 \<le> x \<and> x < n) xs)"

section \<open>Metrics: \<open>metrics.py\<close>\<close>

subsection \<open>The local knapsack of \<open>ArgmaxKnapsack\<close>\<close>

text \<open>
  \<open>SoftKnapsack.solve_local_knapsack_no_profits(capacity, task_demands)\<close>.
  \<open>ArgmaxKnapsack\<close> passes the available unlocked budget of a block at an alpha when it is
  positive and \<open>-inf\<close> otherwise, so the capacity is a \<open>pyfloat\<close>; \<open>task_demands\<close> is the
  dictionary from task id to the task's demand on that block at that alpha. The loop
  goes through the sorted demands with the pair \<open>(opt, sum)\<close>.
\<close>

definition knapsack_step :: "pyfloat \<Rightarrow> real \<Rightarrow> int \<times> real \<Rightarrow> int \<times> real" where
  "knapsack_step capacity demand = (\<lambda>(opt, sum).
     if pf_le (Fin (sum + demand)) capacity then (opt + 1, sum + demand) else (opt, sum))"

definition solve_local_knapsack_no_profits :: "pyfloat \<Rightarrow> (int \<times> real) list \<Rightarrow> int" where
  "solve_local_knapsack_no_profits capacity task_demands =
     (if pf_le capacity (Fin 0) then 0
      else let demands = sort (map snd task_demands)
           in fst (fold (knapsack_step capacity) demands (0, 0)))"

text \<open>
  The specification's side, in its words: the optimum of the 0/1 knapsack with unit
  values is the greatest number of tasks in a choice of tasks (a subsequence of the
  dictionary's items) whose summed demands fit within the capacity.
\<close>

definition fits :: "real \<Rightarrow> (int \<times> real) list \<Rightarrow> bool" where
  "fits capacity chosen = (sum_list (map snd chosen) \<le> capacity)"

definition unit_knapsack_optimum :: "real \<Rightarrow> (int \<times> real) list \<Rightarrow> nat" where
  "unit_knapsack_optimum capacity task_demands =
     Max (set (map length (filter (fits capacity) (subseqs task_demands))))"

subsection \<open>Blocks and tasks\<close>

text \<open>
  Modelled from the spec: the class \<open>Block\<close> (\<open>privacypacking.budget.Block\<close>) is not among
  the sources. A block has an \<open>initial_budget\<close> fixed at creation and an
  \<open>available_unlocked_budget\<close> (spec, section 3); the metrics also read its
  \<open>truncated_available_unlocked_budget\<close>. All three are budgets.
\<close>

record block =
  initial_budget :: "real budget"
  available_unlocked_budget :: "real budget"
  truncated_available_unlocked_budget :: "real budget"

text \<open>
  \<open>Task\<close> (\<open>task.py\<close>): the identifier, the profit, the dictionary \<open>budget_per_block\<close>
  from block id to the demand on that block, the \<open>cost\<close> that the metrics write, and the
  \<open>demand_matrix\<close> (block id by alpha index) of the vectorised metrics.
  \<open>Task.build_demand_matrix\<close> fills a dense numpy array; \<open>VectorizedBatchOverflowRelevance\<close>
  and \<open>SoftmaxOverflow\<close> read the attribute as a scipy sparse matrix, through \<open>toarray()\<close>,
  a method that a numpy array does not have.
\<close>

datatype demand_matrix_t = NdArray "real list list" | SparseMatrix "real list list"

definition toarray :: "demand_matrix_t \<Rightarrow> py_error + real list list" where
  "toarray m = (case m of SparseMatrix rows \<Rightarrow> Inr rows | NdArray rows \<Rightarrow> Inl AttributeError)"

record task =
  task_id :: int
  profit :: real
  budget_per_block :: "(int \<times> real budget) list"
  cost :: pyfloat
  demand_matrix :: demand_matrix_t

subsection \<open>\<open>OverflowRelevance\<close>\<close>

text \<open>
  The overflow dictionary \<open>overflow_b_a\<close> maps a block id to a dictionary from alpha to
  the overflow. The three nested loops of \<open>OverflowRelevance.apply\<close> are, from the inside:
  the body for one alpha of one block demand, the body for one item of
  \<open>budget_per_block\<close>, and the body for one task.
\<close>

definition overflow_add_alpha ::
  "(int \<times> block) list \<Rightarrow> int \<Rightarrow> real budget \<Rightarrow> real \<Rightarrow>
   (int \<times> (real \<times> real) list) list \<Rightarrow> py_error + (int \<times> (real \<times> real) list) list" where
  "overflow_add_alpha blocks block_id block_demand a overflow_b_a =
     bind_err (dict_get overflow_b_a block_id) (\<lambda>row.
     bind_err (if map_of row a = None
               then bind_err (dict_get blocks block_id) (\<lambda>blk.
                    bind_err (epsilon (initial_budget blk) a) (\<lambda>e.
                    Inr (AList.update a (- e) row)))
               else Inr row) (\<lambda>row.
     bind_err (dict_get row a) (\<lambda>current.
     bind_err (epsilon block_demand a) (\<lambda>d.
     Inr (AList.update block_id (AList.update a (current + d) row) overflow_b_a)))))"

definition overflow_add_block ::
  "(int \<times> block) list \<Rightarrow> int \<times> real budget \<Rightarrow>
   (int \<times> (real \<times> real) list) list \<Rightarrow> py_error + (int \<times> (real \<times> real) list) list" where
  "overflow_add_block blocks = (\<lambda>(block_id, block_demand) overflow_b_a.
     for_each (alphas block_demand) (overflow_add_alpha blocks block_id block_demand)
       (if map_of overflow_b_a block_id = None then AList.update block_id [] overflow_b_a
        else overflow_b_a))"

definition overflow_add_task ::
  "(int \<times> block) list \<Rightarrow> task \<Rightarrow>
   (int \<times> (real \<times> real) list) list \<Rightarrow> py_error + (int \<times> (real \<times> real) list) list" where
  "overflow_add_task blocks t = for_each (budget_per_block t) (overflow_add_block blocks)"

text \<open>
  The cost of one block: the loop over the alphas of the demand with the running
  \<open>costs[block_id_]\<close>, left by \<open>break\<close> with cost 0 at the first overflow that is not
  positive.
\<close>

fun block_cost ::
  "(int \<times> (real \<times> real) list) list \<Rightarrow> int \<Rightarrow> real budget \<Rightarrow> real list \<Rightarrow> real \<Rightarrow>
   py_error + real" where
  "block_cost overflow_b_a block_id block_demand [] acc = Inr acc"
| "block_cost overflow_b_a block_id block_demand (alpha # rest) acc =
     bind_err (epsilon block_demand alpha) (\<lambda>demand.
     bind_err (dict_get overflow_b_a block_id) (\<lambda>row.
     bind_err (dict_get row alpha) (\<lambda>overflow.
       if overflow > 0
       then block_cost overflow_b_a block_id block_demand rest (acc + demand / overflow)
       else Inr 0)))"

definition task_costs ::
  "(int \<times> (real \<times> real) list) list \<Rightarrow> task \<Rightarrow> py_error + (int \<times> real) list" where
  "task_costs overflow_b_a t =
     for_each (budget_per_block t)
       (\<lambda>(block_id, block_demand) costs.
          bind_err (block_cost overflow_b_a block_id block_demand (alphas block_demand) 0)
            (\<lambda>c. Inr (AList.update block_id c costs)))
       []"

text \<open>
  \<open>OverflowRelevance.apply(task, blocks, tasks)\<close>; \<open>tasks\<close> defaults to \<open>None\<close>, which
  cannot be iterated. The result is the rank and the task with its \<open>cost\<close> written.
\<close>

definition OverflowRelevance_apply ::
  "task \<Rightarrow> (int \<times> block) list \<Rightarrow> task list option \<Rightarrow> py_error + pyfloat \<times> task" where
  "OverflowRelevance_apply t blocks tasks =
     (case tasks of
        None \<Rightarrow> Inl TypeError
      | Some ts \<Rightarrow>
          bind_err (for_each ts (overflow_add_task blocks) []) (\<lambda>overflow_b_a.
          bind_err (task_costs overflow_b_a t) (\<lambda>costs.
            let total_cost = fold (\<lambda>cost total. total + cost) (map snd costs) 0;
                t' = t\<lparr>cost := Fin total_cost\<rparr>
            in if total_cost \<le> 0 then Inr (PInf, t')
               else Inr (Fin (profit t / total_cost), t'))))"

text \<open>
  The specification's side, in its words. The demand of a task on a block at an alpha
  (\<open>0\<close> where the task demands nothing); the
  overflow of a block at an alpha, the sum of all pending tasks' demands minus the initial
  budget; the cost of a block for a demand, the sum over alpha of \<open>demand / overflow\<close>, or
  \<open>0\<close> if any alpha has an overflow that is not positive; the total cost and the rank.
\<close>

definition demand_on :: "task \<Rightarrow> int \<Rightarrow> real \<Rightarrow> real" where
  "demand_on t b a =
     (case map_of (budget_per_block t) b of
        None \<Rightarrow> 0
      | Some d \<Rightarrow> (case map_of (orders d) a of None \<Rightarrow> 0 | Some e \<Rightarrow> e))"

definition initial_epsilon :: "(int \<times> block) list \<Rightarrow> int \<Rightarrow> real \<Rightarrow> real" where
  "initial_epsilon blocks b a = eps_at (initial_budget (the (map_of blocks b))) a"

definition overflow_spec :: "(int \<times> block) list \<Rightarrow> task list \<Rightarrow> int \<Rightarrow> real \<Rightarrow> real" where
  "overflow_spec blocks ts b a = (\<Sum>t \<leftarrow> ts. demand_on t b a) - initial_epsilon blocks b a"

definition block_cost_spec ::
  "(int \<times> block) list \<Rightarrow> task list \<Rightarrow> int \<Rightarrow> real budget \<Rightarrow> real" where
  "block_cost_spec blocks ts b d =
     (if list_ex (\<lambda>a. overflow_spec blocks ts b a \<le> 0) (alphas d) then 0
      else (\<Sum>a \<leftarrow> alphas d. eps_at d a / overflow_spec blocks ts b a))"

definition total_cost_spec :: "(int \<times> block) list \<Rightarrow> task list \<Rightarrow> task \<Rightarrow> real" where
  "total_cost_spec blocks ts t =
     (\<Sum>(b, d) \<leftarrow> budget_per_block t. block_cost_spec blocks ts b d)"

definition rank_spec :: "(int \<times> block) list \<Rightarrow> task list \<Rightarrow> task \<Rightarrow> pyfloat" where
  "rank_spec blocks ts t =
     (if total_cost_spec blocks ts t \<le> 0 then PInf
      else Fin (profit t / total_cost_spec blocks ts t))"

text \<open>
  What the claim takes for granted of its inputs: the dictionaries are dictionaries, and
  every block that a pending task touches exists and has, in its initial budget, every
  alpha that the task demands of it.
\<close>

definition wf_task :: "task \<Rightarrow> bool" where
  "wf_task t =
     (is_dict (budget_per_block t)
      \<and> list_all (\<lambda>(b, d). is_dict (orders d)) (budget_per_block t))"

definition blocks_cover :: "(int \<times> block) list \<Rightarrow> task \<Rightarrow> bool" where
  "blocks_cover blocks t =
     list_all (\<lambda>(b, d). case map_of blocks b of
                          None \<Rightarrow> False
                        | Some blk \<Rightarrow> list_all (\<lambda>a. a \<in> set (alphas (initial_budget blk))) (alphas d))
       (budget_per_block t)"

text \<open>
  Notions for the proofs, not part of the program: the overflow dictionary read as a map
  from (block, alpha); the triples (block, alpha, demand) in the order in which the loops
  meet them, the step that one triple makes on that map, and the sum and the keys of a
  list of triples; a task touching an alpha of a block; the demand of a task on a block at
  an alpha as the loops add it up.
\<close>

definition lookup2 :: "('b \<times> ('a \<times> 'v) list) list \<Rightarrow> 'b \<times> 'a \<Rightarrow> 'v option" where
  "lookup2 ov = (\<lambda>(b, a). case map_of ov b of None \<Rightarrow> None | Some row \<Rightarrow> map_of row a)"

definition acc_step ::
  "(int \<times> block) list \<Rightarrow> int \<times> real \<times> real \<Rightarrow> (int \<times> real \<Rightarrow> real option) \<Rightarrow>
   (int \<times> real \<Rightarrow> real option)" where
  "acc_step blocks = (\<lambda>(b, a, e) m.
     m((b, a) \<mapsto> (case m (b, a) of None \<Rightarrow> - initial_epsilon blocks b a | Some v \<Rightarrow> v) + e))"

definition entries_of_demand :: "int \<times> real budget \<Rightarrow> (int \<times> real \<times> real) list" where
  "entries_of_demand = (\<lambda>(b, d). map (\<lambda>a. (b, a, eps_at d a)) (alphas d))"

definition entries_of_task :: "task \<Rightarrow> (int \<times> real \<times> real) list" where
  "entries_of_task t = concat (map entries_of_demand (budget_per_block t))"

definition entry_sum :: "(int \<times> real \<times> real) list \<Rightarrow> int \<times> real \<Rightarrow> real" where
  "entry_sum E k = (\<Sum>(b, a, e) \<leftarrow> E. if (b, a) = k then e else 0)"

definition entry_keys :: "(int \<times> real \<times> real) list \<Rightarrow> (int \<times> real) set" where
  "entry_keys E = (\<lambda>x. (fst x, fst (snd x))) ` set E"

definition touches :: "task \<Rightarrow> int \<Rightarrow> real \<Rightarrow> bool" where
  "touches t b a = (\<exists>d. (b, d) \<in> set (budget_per_block t) \<and> a \<in> set (alphas d))"

definition demand_sum :: "task \<Rightarrow> int \<Rightarrow> real \<Rightarrow> real" where
  "demand_sum t b a =
     (\<Sum>(b', d) \<leftarrow> budget_per_block t.
        \<Sum>a' \<leftarrow> alphas d. if b' = b \<and> a' = a then eps_at d a' else 0)"

subsection \<open>\<open>BatchOverflowRelevance\<close>\<close>

text \<open>
  \<open>compute_overflow(self, blocks, tasks=None)\<close> is a method, and \<open>apply\<close> calls it
  through the class, \<open>BatchOverflowRelevance.compute_overflow(blocks, tasks)\<close>: no
  instance is bound, so the dictionary of blocks arrives as \<open>self\<close>, the list of tasks as
  \<open>blocks\<close>, and \<open>tasks\<close> keeps its default \<open>None\<close>. The parameters are therefore Python
  values of any of these kinds. Iterating \<open>None\<close> raises \<open>TypeError\<close>; iterating a
  dictionary yields its integer keys, which have no \<open>budget_per_block\<close>; subscripting a
  list of tasks yields a task (or \<open>IndexError\<close>), which has no
  \<open>available_unlocked_budget\<close>.
\<close>

datatype pyval = PyNone | PyBlocks "(int \<times> block) list" | PyTasks "task list"

definition blocks_available_unlocked_budget :: "pyval \<Rightarrow> int \<Rightarrow> py_error + real budget" where
  "blocks_available_unlocked_budget blocks block_id =
     (case blocks of
        PyBlocks bs \<Rightarrow>
          bind_err (dict_get bs block_id) (\<lambda>blk. Inr (available_unlocked_budget blk))
      | PyTasks ts \<Rightarrow>
          (if - int (length ts) \<le> block_id \<and> block_id < int (length ts)
           then Inl AttributeError else Inl IndexError)
      | PyNone \<Rightarrow> Inl TypeError)"

definition batch_overflow_add_alpha ::
  "pyval \<Rightarrow> int \<Rightarrow> real budget \<Rightarrow> real \<Rightarrow>
   (int \<times> (real \<times> pyfloat) list) list \<Rightarrow> py_error + (int \<times> (real \<times> pyfloat) list) list" where
  "batch_overflow_add_alpha blocks block_id block_demand a overflow_b_a =
     bind_err (dict_get overflow_b_a block_id) (\<lambda>row.
     bind_err (if map_of row a = None
               then bind_err (blocks_available_unlocked_budget blocks block_id) (\<lambda>unlocked.
                    bind_err (epsilon unlocked a) (\<lambda>available_unlocked_budget.
                    Inr (AList.update a
                           (if available_unlocked_budget > 0 then Fin (- available_unlocked_budget)
                            else PInf) row)))
               else Inr row) (\<lambda>row.
     bind_err (dict_get row a) (\<lambda>current.
     bind_err (epsilon block_demand a) (\<lambda>d.
     Inr (AList.update block_id (AList.update a (pf_add current (Fin d)) row) overflow_b_a)))))"

definition batch_overflow_add_block ::
  "pyval \<Rightarrow> int \<times> real budget \<Rightarrow>
   (int \<times> (real \<times> pyfloat) list) list \<Rightarrow> py_error + (int \<times> (real \<times> pyfloat) list) list" where
  "batch_overflow_add_block blocks = (\<lambda>(block_id, block_demand) overflow_b_a.
     for_each (alphas block_demand) (batch_overflow_add_alpha blocks block_id block_demand)
       (if map_of overflow_b_a block_id = None then AList.update block_id [] overflow_b_a
        else overflow_b_a))"

definition compute_overflow ::
  "pyval \<Rightarrow> pyval \<Rightarrow> pyval \<Rightarrow> py_error + (int \<times> (real \<times> pyfloat) list) list" where
  "compute_overflow self blocks tasks =
     (case tasks of
        PyNone \<Rightarrow> Inl TypeError
      | PyBlocks bs \<Rightarrow> (if bs = [] then Inr [] else Inl AttributeError)
      | PyTasks ts \<Rightarrow>
          for_each ts
            (\<lambda>t. for_each (budget_per_block t) (batch_overflow_add_block blocks)) [])"

text \<open>
  The cost of one block in \<open>BatchOverflowRelevance.apply\<close>: as in \<open>OverflowRelevance\<close>,
  over overflows that may be infinite.
\<close>

fun batch_block_cost ::
  "(int \<times> (real \<times> pyfloat) list) list \<Rightarrow> int \<Rightarrow> real budget \<Rightarrow> real list \<Rightarrow> pyfloat \<Rightarrow>
   py_error + pyfloat" where
  "batch_block_cost overflow_b_a block_id block_demand [] acc = Inr acc"
| "batch_block_cost overflow_b_a block_id block_demand (alpha # rest) acc =
     bind_err (epsilon block_demand alpha) (\<lambda>demand.
     bind_err (dict_get overflow_b_a block_id) (\<lambda>row.
     bind_err (dict_get row alpha) (\<lambda>overflow.
       if pf_less (Fin 0) overflow
       then bind_err (py_truediv (Fin demand) overflow) (\<lambda>q.
              batch_block_cost overflow_b_a block_id block_demand rest (pf_add acc q))
       else Inr (Fin 0))))"

text \<open>
  \<open>BatchOverflowRelevance.apply(task, blocks, tasks=None, overflow=None)\<close>. The test
  \<open>if overflow:\<close> holds for a dictionary that is not empty.
\<close>

definition BatchOverflowRelevance_apply ::
  "task \<Rightarrow> (int \<times> block) list \<Rightarrow> task list option \<Rightarrow>
   (int \<times> (real \<times> pyfloat) list) list option \<Rightarrow> py_error + pyfloat \<times> task" where
  "BatchOverflowRelevance_apply t blocks tasks overflow =
     bind_err
       (let fresh = compute_overflow (PyBlocks blocks)
                      (case tasks of None \<Rightarrow> PyNone | Some ts \<Rightarrow> PyTasks ts) PyNone
        in case overflow of
             None \<Rightarrow> fresh
           | Some precomputed \<Rightarrow> if precomputed = [] then fresh else Inr precomputed)
       (\<lambda>overflow_b_a.
     bind_err
       (for_each (budget_per_block t)
          (\<lambda>(block_id, block_demand) costs.
             bind_err (batch_block_cost overflow_b_a block_id block_demand
                         (alphas block_demand) (Fin 0))
               (\<lambda>c. Inr (AList.update block_id c costs)))
          [])
       (\<lambda>costs.
          let total_cost = fold (\<lambda>cost total. pf_add total cost) (map snd costs) (Fin 0);
              t' = t\<lparr>cost := total_cost\<rparr>
          in if pf_le total_cost (Fin 0) then Inr (PInf, t')
             else bind_err (py_truediv (Fin (profit t)) total_cost) (\<lambda>rank. Inr (rank, t'))))"

subsection \<open>\<open>SoftmaxOverflow\<close>\<close>

text \<open>
  \<open>ALPHAS\<close> is the module constant of \<open>budget.py\<close>. \<open>collect xs f\<close> is a loop that fills one
  entry per element of \<open>xs\<close>, in order (a row or a matrix of a numpy array), and stops at
  the first exception.
\<close>

definition ALPHAS :: "real list" where
  "ALPHAS = [3 / 2, 7 / 4, 2, 5 / 2, 3, 4, 5, 6, 8, 16, 32, 64]"

fun collect :: "'a list \<Rightarrow> ('a \<Rightarrow> py_error + 'b) \<Rightarrow> py_error + 'b list" where
  "collect [] f = Inr []"
| "collect (x # xs) f = bind_err (f x) (\<lambda>y. bind_err (collect xs f) (\<lambda>ys. Inr (y # ys)))"

text \<open>
  The matrix \<open>available_budget\<close>: for each block id of \<open>range(n_blocks)\<close> and each alpha of
  \<open>ALPHAS\<close>, the truncated available unlocked budget, or the available unlocked budget
  when it is \<open>\<ge> 0\<close> and \<open>-inf\<close> otherwise.
\<close>

definition available_budget_entry ::
  "bool \<Rightarrow> (int \<times> block) list \<Rightarrow> int \<Rightarrow> real \<Rightarrow> py_error + pyfloat" where
  "available_budget_entry truncate_available_budget blocks block_id alpha =
     bind_err (dict_get blocks block_id) (\<lambda>blk.
       if truncate_available_budget
       then bind_err (epsilon (truncated_available_unlocked_budget blk) alpha)
              (\<lambda>eps. Inr (Fin eps))
       else bind_err (epsilon (available_unlocked_budget blk) alpha)
              (\<lambda>eps. Inr (if eps \<ge> 0 then Fin eps else NInf)))"

definition available_budget_matrix ::
  "bool \<Rightarrow> (int \<times> block) list \<Rightarrow> py_error + pyfloat list list" where
  "available_budget_matrix truncate_available_budget blocks =
     collect (py_range 0 (int (length blocks)))
       (\<lambda>block_id. collect ALPHAS (available_budget_entry truncate_available_budget blocks block_id))"

text \<open>
  \<open>sum((task.demand_matrix.toarray() for task in tasks))\<close>: the builtin \<open>sum\<close> starts from
  the integer \<open>0\<close> (\<open>None\<close> here) and adds the matrices in order. The addition and the
  subtraction of numpy arrays are elementwise; arrays of different shapes raise
  \<open>ValueError\<close> (numpy's broadcasting of an axis of length 1 is not modelled).
\<close>

definition mat_add :: "real list list \<Rightarrow> real list list \<Rightarrow> py_error + real list list" where
  "mat_add a b =
     (if map length a = map length b then Inr (map2 (map2 (+)) a b) else Inl ValueError)"

fun sum_demand_matrices ::
  "task list \<Rightarrow> real list list option \<Rightarrow> py_error + real list list option" where
  "sum_demand_matrices [] acc = Inr acc"
| "sum_demand_matrices (t # ts) acc =
     bind_err (toarray (demand_matrix t)) (\<lambda>m.
     bind_err (case acc of None \<Rightarrow> Inr m | Some s \<Rightarrow> mat_add s m) (\<lambda>s.
     sum_demand_matrices ts (Some s)))"

definition overflow_matrix ::
  "real list list option \<Rightarrow> pyfloat list list \<Rightarrow> py_error + pyfloat list list" where
  "overflow_matrix sum_demands available_budget =
     (case sum_demands of
        None \<Rightarrow> Inr (map (map (\<lambda>a. pf_sub (Fin 0) a)) available_budget)
      | Some s \<Rightarrow>
          if map length s = map length available_budget
          then Inr (map2 (map2 (\<lambda>d a. pf_sub (Fin d) a)) s available_budget)
          else Inl ValueError)"

text \<open>
  \<open>np.min\<close> of a row (a \<open>nan\<close> wins; an empty row raises \<open>ValueError\<close>), and the treatment
  of a block without contention:
  \<open>overflow[block_id] = np.empty(shape=[1, n_alphas]).fill(float("inf"))\<close>. The method
  \<open>fill\<close> works in place and returns \<open>None\<close>, so the row is assigned \<open>None\<close>, which numpy
  stores in a float array as \<open>nan\<close> in every entry.
\<close>

fun np_min_from :: "pyfloat \<Rightarrow> pyfloat list \<Rightarrow> pyfloat" where
  "np_min_from m [] = m"
| "np_min_from m (x # xs) =
     np_min_from (if m = NaN \<or> x = NaN then NaN else if pf_less x m then x else m) xs"

definition np_min :: "pyfloat list \<Rightarrow> py_error + pyfloat" where
  "np_min row = (case row of [] \<Rightarrow> Inl ValueError | x # xs \<Rightarrow> Inr (np_min_from x xs))"

definition drop_no_contention :: "pyfloat list \<Rightarrow> py_error + pyfloat list" where
  "drop_no_contention row =
     bind_err (np_min row) (\<lambda>min_overflow.
       if pf_le min_overflow (Fin 0) then Inr (map (\<lambda>_. NaN) row) else Inr row)"

text \<open>
  One row of the result: \<open>exp(-temperature * overflow)\<close>, its sum plus \<open>1e-15\<close>, the
  quotient, and the division by the row of \<open>available_budget\<close>.
\<close>

definition relevance_row :: "real \<Rightarrow> pyfloat list \<Rightarrow> pyfloat list \<Rightarrow> pyfloat list" where
  "relevance_row temperature overflow_row available_row =
     (let exponential_overflow = map (\<lambda>x. pf_exp (pf_mul (Fin (- temperature)) x)) overflow_row;
          sum_per_block =
            pf_add (fold (\<lambda>x s. pf_add s x) exponential_overflow (Fin 0)) (Fin (1 / 10 ^ 15));
          softmax = map (\<lambda>e. pf_div e sum_per_block) exponential_overflow
      in map2 pf_div softmax available_row)"

text \<open>
  \<open>SoftmaxOverflow.compute_relevance_matrix(blocks, tasks, drop_blocks_with_no_contention,
  truncate_available_budget, temperature)\<close>. The logging and the \<open>time.sleep(2)\<close> between
  the softmax and the last division do not change the value.
\<close>

definition SoftmaxOverflow_compute_relevance_matrix ::
  "(int \<times> block) list \<Rightarrow> task list option \<Rightarrow> bool \<Rightarrow> bool \<Rightarrow> real \<Rightarrow>
   py_error + pyfloat list list" where
  "SoftmaxOverflow_compute_relevance_matrix blocks tasks drop_blocks_with_no_contention
       truncate_available_budget temperature =
     bind_err (available_budget_matrix truncate_available_budget blocks) (\<lambda>available_budget.
     bind_err (case tasks of None \<Rightarrow> Inl TypeError | Some ts \<Rightarrow> sum_demand_matrices ts None)
       (\<lambda>sum_demands.
     bind_err (overflow_matrix sum_demands available_budget) (\<lambda>overflow.
     bind_err (if drop_blocks_with_no_contention then collect overflow drop_no_contention
               else Inr overflow) (\<lambda>overflow.
     Inr (map2 (relevance_row temperature) overflow available_budget)))))"

text \<open>
  The specification's side. The available budget of block \<open>b\<close> at the \<open>i\<close>-th alpha, the
  summed demand, and the overflow, their difference; a block is under contention when
  every overflow of its row is positive. The softmax of \<open>-temperature * overflow\<close> along a
  row, in the claim's words, and what the code computes instead, the same quotient with
  \<open>1e-15\<close> added to the denominator (an alpha without available budget has an infinite
  overflow and the weight \<open>0\<close>).
\<close>

definition read_budget :: "bool \<Rightarrow> block \<Rightarrow> real budget" where
  "read_budget truncate_available_budget blk =
     (if truncate_available_budget then truncated_available_unlocked_budget blk
      else available_unlocked_budget blk)"

definition available_at :: "bool \<Rightarrow> (int \<times> block) list \<Rightarrow> nat \<Rightarrow> nat \<Rightarrow> pyfloat" where
  "available_at truncate_available_budget blocks b i =
     (let eps = eps_at (read_budget truncate_available_budget (the (map_of blocks (int b))))
                  (ALPHAS ! i)
      in if truncate_available_budget \<or> eps \<ge> 0 then Fin eps else NInf)"

definition demand_entry :: "task \<Rightarrow> nat \<Rightarrow> nat \<Rightarrow> real" where
  "demand_entry t b i =
     (case demand_matrix t of SparseMatrix m \<Rightarrow> m ! b ! i | NdArray m \<Rightarrow> m ! b ! i)"

definition summed_demand :: "task list \<Rightarrow> nat \<Rightarrow> nat \<Rightarrow> real" where
  "summed_demand ts b i = (\<Sum>t \<leftarrow> ts. demand_entry t b i)"

definition overflow_at :: "bool \<Rightarrow> (int \<times> block) list \<Rightarrow> task list \<Rightarrow> nat \<Rightarrow> nat \<Rightarrow> pyfloat" where
  "overflow_at truncate_available_budget blocks ts b i =
     pf_sub (Fin (summed_demand ts b i)) (available_at truncate_available_budget blocks b i)"

definition contention :: "bool \<Rightarrow> (int \<times> block) list \<Rightarrow> task list \<Rightarrow> nat \<Rightarrow> bool" where
  "contention truncate_available_budget blocks ts b =
     list_all (\<lambda>i. pf_less (Fin 0) (overflow_at truncate_available_budget blocks ts b i))
       [0..<length ALPHAS]"

definition weight :: "real \<Rightarrow> pyfloat \<Rightarrow> real" where
  "weight temperature overflow =
     (case overflow of Fin x \<Rightarrow> exp (- temperature * x) | _ \<Rightarrow> 0)"

definition softmax_spec :: "real \<Rightarrow> pyfloat list \<Rightarrow> nat \<Rightarrow> real" where
  "softmax_spec temperature overflow_row i =
     weight temperature (overflow_row ! i) / (\<Sum>x \<leftarrow> overflow_row. weight temperature x)"

definition softmax_code :: "real \<Rightarrow> pyfloat list \<Rightarrow> nat \<Rightarrow> real" where
  "softmax_code temperature overflow_row i =
     weight temperature (overflow_row ! i)
       / ((\<Sum>x \<leftarrow> overflow_row. weight temperature x) + 1 / 10 ^ 15)"

definition overflow_row_at ::
  "bool \<Rightarrow> (int \<times> block) list \<Rightarrow> task list \<Rightarrow> nat \<Rightarrow> pyfloat list" where
  "overflow_row_at truncate_available_budget blocks ts b =
     map (overflow_at truncate_available_budget blocks ts b) [0..<length ALPHAS]"

text \<open>
  What the claim takes for granted of its inputs: the blocks are numbered from \<open>0\<close> and
  each has every alpha of \<open>ALPHAS\<close> in the budget that is read; every task carries a sparse
  demand matrix with one row per block and one column per alpha.
\<close>

definition blocks_ok :: "bool \<Rightarrow> (int \<times> block) list \<Rightarrow> bool" where
  "blocks_ok truncate_available_budget blocks =
     list_all (\<lambda>b. case map_of blocks (int b) of
                     None \<Rightarrow> False
                   | Some blk \<Rightarrow>
                       list_all (\<lambda>a. a \<in> set (alphas (read_budget truncate_available_budget blk)))
                         ALPHAS)
       [0..<length blocks]"

definition tasks_ok :: "nat \<Rightarrow> task list \<Rightarrow> bool" where
  "tasks_ok n_blocks ts =
     list_all (\<lambda>t. case demand_matrix t of
                     SparseMatrix m \<Rightarrow> map length m = replicate n_blocks (length ALPHAS)
                   | NdArray m \<Rightarrow> False) ts"

text \<open>
  A notion for the proofs, not part of the program: the matrix with \<open>n\<close> rows and \<open>k\<close>
  columns that tabulates a function of the row and column indices.
\<close>

definition tab :: "nat \<Rightarrow> nat \<Rightarrow> (nat \<Rightarrow> nat \<Rightarrow> 'a) \<Rightarrow> 'a list list" where
  "tab n k F = map (\<lambda>b. map (F b) [0..<k]) [0..<n]"

text \<open>
  An example input: two blocks whose budgets hold epsilon 1 at every alpha of \<open>ALPHAS\<close>,
  and one task that demands 1/2 at every alpha of block 0 and 2 at every alpha of
  block 1.
\<close>

definition uniform_budget :: "real \<Rightarrow> real budget" where
  "uniform_budget e = Budget_init (map (\<lambda>a. (a, e)) ALPHAS)"

definition uniform_block :: "real \<Rightarrow> block" where
  "uniform_block e =
     \<lparr>initial_budget = uniform_budget e, available_unlocked_budget = uniform_budget e,
      truncated_available_unlocked_budget = uniform_budget e\<rparr>"

definition two_blocks :: "(int \<times> block) list" where
  "two_blocks = [(0, uniform_block 1), (1, uniform_block 1)]"

definition one_task :: task where
  "one_task =
     \<lparr>task_id = 0, profit = 1,
      budget_per_block = [(0, uniform_budget (1 / 2)), (1, uniform_budget 2)],
      cost = Fin 0,
      demand_matrix = SparseMatrix [replicate 12 (1 / 2), replicate 12 2]\<rparr>"

section \<open>The resource manager's termination clock: \<open>resourcemanager.py\<close>\<close>

text \<open>
  The simulation is a discrete-event loop (simpy) over a virtual clock \<open>env.now\<close>;
  \<open>termination_clock\<close> is one of its processes, a generator. The model keeps what the
  clock reads and writes: the time, and for the one-shot event
  \<open>task_production_terminated\<close> whether it has been triggered and at what time.
  \<open>block_arrival_interval\<close> is the attribute that \<open>start\<close> sets from
  \<open>config.set_block_arrival_time()\<close>, which returns the constant 1 of \<open>Config\<close>;
  \<open>data_lifetime\<close> is \<open>config.omegaconf.scheduler.data_lifetime\<close>.
\<close>

record rm_config =
  block_arrival_interval :: real
  data_lifetime :: real

definition Config_block_arrival_interval :: real where
  "Config_block_arrival_interval = 1"

record sim =
  now :: real
  task_production_terminated :: "real option"

text \<open>
  The generator is suspended at a \<open>yield\<close>; \<open>clock_pc\<close> names the suspension points and a
  \<open>request\<close> is what it yielded. \<open>termination_clock\<close> runs the body from one suspension
  point to the next \<open>yield\<close> (or to the end, \<open>None\<close>). \<open>env.timeout(delay)\<close> raises
  \<open>ValueError\<close> on a negative delay.
\<close>

datatype clock_pc = NotStarted | AwaitBlockProduction | AwaitInterval | AwaitLifetime

datatype request = BlockProductionTerminated | Timeout real

fun termination_clock ::
  "rm_config \<Rightarrow> clock_pc \<Rightarrow> sim \<Rightarrow> py_error + sim \<times> (request \<times> clock_pc) option" where
  "termination_clock cfg NotStarted s =
     Inr (s, Some (BlockProductionTerminated, AwaitBlockProduction))"
| "termination_clock cfg AwaitBlockProduction s =
     (if block_arrival_interval cfg < 0 then Inl ValueError
      else Inr (s, Some (Timeout (block_arrival_interval cfg), AwaitInterval)))"
| "termination_clock cfg AwaitInterval s =
     (let s' = (if task_production_terminated s = None
                then s\<lparr>task_production_terminated := Some (now s)\<rparr> else s)
      in if data_lifetime cfg < 0 then Inl ValueError
         else Inr (s', Some (Timeout (data_lifetime cfg), AwaitLifetime)))"
| "termination_clock cfg AwaitLifetime s = Inr (s, None)"

text \<open>
  The event loop's side, for this process: a process that yielded the event
  \<open>block_production_terminated\<close> is resumed at the time \<open>t0\<close> at which that event fires,
  and a process that yielded a timeout of \<open>d\<close> is resumed \<open>d\<close> ticks after the yield.
  \<open>run_clock\<close> runs the clock from a suspension point to its end.
\<close>

fun pc_rank :: "clock_pc \<Rightarrow> nat" where
  "pc_rank NotStarted = 3"
| "pc_rank AwaitBlockProduction = 2"
| "pc_rank AwaitInterval = 1"
| "pc_rank AwaitLifetime = 0"

function run_clock :: "rm_config \<Rightarrow> real \<Rightarrow> clock_pc \<Rightarrow> sim \<Rightarrow> py_error + sim" where
  "run_clock cfg t0 pc s =
     (case termination_clock cfg pc s of
        Inl e \<Rightarrow> Inl e
      | Inr (s', None) \<Rightarrow> Inr s'
      | Inr (s', Some (BlockProductionTerminated, pc')) \<Rightarrow> run_clock cfg t0 pc' (s'\<lparr>now := t0\<rparr>)
      | Inr (s', Some (Timeout d, pc')) \<Rightarrow> run_clock cfg t0 pc' (s'\<lparr>now := now s' + d\<rparr>))"
  by pat_completeness auto
termination
  by (relation "measure (\<lambda>(cfg, t0, pc, s). pc_rank pc)")
     (auto split: if_splits elim!: termination_clock.elims simp: Let_def)

chapter \<open>Properties\<close>

section \<open>Budget algebra\<close>

lemma bind_err_simps [simp]:
  "bind_err (Inl e) f = Inl e" "bind_err (Inr v) f = f v"
  by (simp_all add: bind_err_def)

lemma dict_comp_ok:
  "\<forall>k\<in>set ks. f k = Inr (g k) \<Longrightarrow> distinct ks \<Longrightarrow> set ks \<inter> fst ` set d = {} \<Longrightarrow>
   dict_comp ks f d = Inr (d @ map (\<lambda>k. (k, g k)) ks)"
proof (induction ks arbitrary: d)
  case Nil
  then show ?case by simp
next
  case (Cons k ks)
  have upd: "AList.update k (g k) d = d @ [(k, g k)]"
    using Cons.prems(3) by (induction d) auto
  have "dict_comp ks f (d @ [(k, g k)]) = Inr ((d @ [(k, g k)]) @ map (\<lambda>k. (k, g k)) ks)"
    using Cons.prems by (intro Cons.IH) auto
  then show ?case using Cons.prems(1) upd by simp
qed

lemma fold_update_fresh:
  "distinct (map fst xs) \<Longrightarrow> fst ` set xs \<inter> fst ` set acc = {} \<Longrightarrow>
   fold (\<lambda>(alpha, e) acc. AList.update alpha e acc) xs acc = acc @ xs"
proof (induction xs arbitrary: acc)
  case Nil
  then show ?case by simp
next
  case (Cons x xs)
  obtain k v where x: "x = (k, v)" by (cases x)
  have upd: "AList.update k v acc = acc @ [(k, v)]"
    using Cons.prems(2) x by (induction acc) auto
  have "fold (\<lambda>(alpha, e) acc. AList.update alpha e acc) xs (acc @ [(k, v)]) = (acc @ [(k, v)]) @ xs"
    using Cons.prems x by (intro Cons.IH) auto
  then show ?case using x upd by simp
qed

lemma Budget_init_sorted:
  "sorted (map fst d) \<Longrightarrow> distinct (map fst d) \<Longrightarrow> orders (Budget_init d) = d"
  unfolding Budget_init_def
  by (simp add: fold_update_fresh sort_key_id_if_sorted)


lemma epsilon_in_support:
  "alpha \<in> set (alphas b) \<Longrightarrow> epsilon b alpha = Inr (eps_at b alpha)"
proof -
  assume "alpha \<in> set (alphas b)"
  then have "alpha \<in> dom (map_of (orders b))"
    by (simp add: alphas_def dom_map_of_conv_image_fst)
  then show ?thesis
    by (auto simp: epsilon_def dict_get_def eps_at_def)
qed

lemma epsilon_outside_support:
  "alpha \<notin> set (alphas b) \<Longrightarrow> epsilon b alpha = Inl KeyError"
proof -
  assume "alpha \<notin> set (alphas b)"
  then have "map_of (orders b) alpha = None"
    by (simp add: alphas_def map_of_eq_None_iff)
  then show ?thesis
    by (simp add: epsilon_def dict_get_def)
qed

lemma shared_alphas_set [simp]:
  "set (shared_alphas b1 b2) = set (alphas b1) \<inter> set (alphas b2)"
  by (auto simp: shared_alphas_def)

lemma shared_alphas_distinct [simp]: "distinct (shared_alphas b1 b2)"
  by (simp add: shared_alphas_def)

lemma shared_alphas_sorted [simp]: "sorted (shared_alphas b1 b2)"
  by (simp add: shared_alphas_def)

lemma Budget_init_tabulate:
  "sorted ks \<Longrightarrow> distinct ks \<Longrightarrow> Budget_init (map (\<lambda>k. (k, g k)) ks) = tabulate ks g"
proof -
  assume a: "sorted ks" "distinct ks"
  have "orders (Budget_init (map (\<lambda>k. (k, g k)) ks)) = map (\<lambda>k. (k, g k)) ks"
    by (rule Budget_init_sorted) (simp_all add: comp_def a)
  then show ?thesis
    by (simp add: tabulate_def Budget_init_def)
qed

lemma alphas_tabulate [simp]: "alphas (tabulate ks g) = ks"
  by (simp add: tabulate_def alphas_def comp_def)

lemma epsilons_tabulate [simp]: "epsilons (tabulate ks g) = map g ks"
  by (simp add: tabulate_def epsilons_def comp_def)

lemma epsilon_tabulate:
  "k \<in> set ks \<Longrightarrow> epsilon (tabulate ks g) k = Inr (g k)"
proof -
  assume "k \<in> set ks"
  then have "map_of (map (\<lambda>k. (k, g k)) ks) k = Some (g k)"
    by (induction ks) auto
  then show ?thesis
    by (simp add: epsilon_def dict_get_def tabulate_def)
qed

lemma same_support_eq:
  "same_support b1 b2 =
     Inr (tabulate (shared_alphas b1 b2) (eps_at b1), tabulate (shared_alphas b1 b2) (eps_at b2))"
proof -
  let ?S = "shared_alphas b1 b2"
  have 1: "dict_comp ?S (epsilon b1) [] = Inr ([] @ map (\<lambda>k. (k, eps_at b1 k)) ?S)"
    by (rule dict_comp_ok) (simp_all add: epsilon_in_support)
  have 2: "dict_comp ?S (epsilon b2) [] = Inr ([] @ map (\<lambda>k. (k, eps_at b2 k)) ?S)"
    by (rule dict_comp_ok) (simp_all add: epsilon_in_support)
  show ?thesis
    using 1 2 by (simp add: same_support_def Let_def Budget_init_tabulate)
qed

lemma budget_sub_eq:
  "budget_sub b1 b2 =
     Inr (tabulate (shared_alphas b1 b2) (\<lambda>alpha. eps_at b1 alpha - eps_at b2 alpha))"
proof -
  let ?S = "shared_alphas b1 b2"
  let ?a = "tabulate ?S (eps_at b1)" and ?b = "tabulate ?S (eps_at b2)"
  let ?f = "\<lambda>alpha. bind_err (epsilon ?a alpha) (\<lambda>x. bind_err (epsilon ?b alpha) (\<lambda>y. Inr (x - y)))"
  have "dict_comp ?S ?f [] = Inr ([] @ map (\<lambda>k. (k, eps_at b1 k - eps_at b2 k)) ?S)"
    by (rule dict_comp_ok) (simp_all add: epsilon_tabulate)
  then show ?thesis
    by (simp add: budget_sub_def same_support_eq Budget_init_tabulate)
qed

lemma py_max_Max: "py_max m xs = Max (set (m # xs))"
proof -
  have "py_max m xs = fold max xs m"
    by (induction xs arbitrary: m) (auto simp: max_def)
  then show ?thesis
    by (simp only: Max.set_eq_fold)
qed

lemma max_nonneg_iff: "0 \<le> py_max (m::real) xs \<longleftrightarrow> (\<exists>e\<in>set (m # xs). 0 \<le> e)"
  by (simp add: py_max_Max Max_ge_iff del: set_simps Max_insert) 

subsection \<open>Feasibility: \<open>can_allocate\<close>\<close>

text \<open>
  C1 (amended). For every block budget \<open>r\<close> and demand budget \<open>d\<close>: if some epsilon of
  \<open>d\<close> is negative, \<open>can_allocate r d\<close> fails its assertion; otherwise, if \<open>r\<close> and \<open>d\<close>
  share no alpha, it raises \<open>ValueError\<close>; otherwise it returns whether some shared alpha
  has \<open>r.epsilon(alpha) >= d.epsilon(alpha)\<close>. So it returns \<open>True\<close> if and only if \<open>d\<close> is
  non-negative (not: positive) on every alpha and such a shared alpha exists, and a demand
  that is zero on every alpha is feasible on any block with a non-negative epsilon at a
  shared alpha.
\<close>

theorem can_allocate_char:
  "can_allocate r d =
     (if \<exists>e\<in>set (epsilons d). e < 0 then Inl AssertionError
      else if set (alphas r) \<inter> set (alphas d) = {} then Inl ValueError
      else Inr (\<exists>alpha\<in>set (alphas r) \<inter> set (alphas d).
                  \<exists>x y. epsilon r alpha = Inr x \<and> epsilon d alpha = Inr y \<and> y \<le> x))"
proof (cases "\<exists>e\<in>set (epsilons d). e < 0")
  case True
  then have "\<not> is_positive_all_alphas d"
    by (auto simp: is_positive_all_alphas_def list_all_iff)
  with True show ?thesis by (simp add: can_allocate_def)
next
  case False
  then have pos: "is_positive_all_alphas d"
    by (auto simp: is_positive_all_alphas_def list_all_iff)
  let ?S = "shared_alphas r d"
  let ?g = "\<lambda>alpha. eps_at r alpha - eps_at d alpha"
  show ?thesis
  proof (cases "?S")
    case Nil
    then have "set (alphas r) \<inter> set (alphas d) = {}"
      using shared_alphas_set [of r d] by simp
    with False pos Nil show ?thesis
      by (simp add: can_allocate_def budget_sub_eq)
  next
    case (Cons a as)
    then have ne: "set (alphas r) \<inter> set (alphas d) \<noteq> {}"
      using shared_alphas_set [of r d] by auto
    have "(0 \<le> py_max (?g a) (map ?g as)) \<longleftrightarrow> (\<exists>alpha\<in>set ?S. 0 \<le> ?g alpha)"
      using Cons by (simp add: max_nonneg_iff)
    also have "\<dots> \<longleftrightarrow> (\<exists>alpha\<in>set (alphas r) \<inter> set (alphas d).
                  \<exists>x y. epsilon r alpha = Inr x \<and> epsilon d alpha = Inr y \<and> y \<le> x)"
      by (auto simp: epsilon_in_support)
    finally have "(0 \<le> py_max (?g a) (map ?g as)) \<longleftrightarrow> (\<exists>alpha\<in>set (alphas r) \<inter> set (alphas d).
                  \<exists>x y. epsilon r alpha = Inr x \<and> epsilon d alpha = Inr y \<and> y \<le> x)" .
    with False pos ne Cons show ?thesis
      by (simp add: can_allocate_def budget_sub_eq)
  qed
qed

text \<open>
  The claim as first stated asks for a demand positive on every alpha, so that an all-zero
  demand is infeasible. The block \<open>{2: 1}\<close> admits the demand \<open>{2: 0}\<close>.
\<close>

theorem can_allocate_zero_demand:
  "can_allocate (Budget_init [(2, 1)]) (Budget_init [(2, 0)]) = Inr True
   \<and> epsilons (Budget_init [(2, 0 :: real)]) = [0]"
  by (simp add: can_allocate_def budget_sub_def same_support_def shared_alphas_def Budget_init_def
      alphas_def epsilons_def epsilon_def dict_get_def is_positive_all_alphas_def)

theorem can_allocate_char_witness:
  "can_allocate (Budget_init [(2, 1), (3, -1)]) (Budget_init [(3, 0), (2, 5)]) = Inr False
   \<and> can_allocate (Budget_init [(2, 1), (3, 0)]) (Budget_init [(3, 0), (2, 5)]) = Inr True
   \<and> can_allocate (Budget_init [(2, 1)]) (Budget_init [(2, -1)]) = Inl AssertionError
   \<and> can_allocate (Budget_init [(2, 1)]) (Budget_init [(3, 1)]) = Inl ValueError"
  using can_allocate_char [of "Budget_init [(2, 1), (3, -1)]" "Budget_init [(3, 0), (2, 5)]"]
    can_allocate_char [of "Budget_init [(2, 1), (3, 0)]" "Budget_init [(3, 0), (2, 5)]"]
    can_allocate_char [of "Budget_init [(2, 1)]" "Budget_init [(2, -1)]"]
    can_allocate_char [of "Budget_init [(2, 1)]" "Budget_init [(3, 1)]"]
  by (simp add: Budget_init_def alphas_def epsilons_def epsilon_def dict_get_def)


subsection \<open>Construction from (epsilon, delta): \<open>from_epsilon_delta\<close>\<close>

lemma fold_update_map_of:
  "map_of (fold (\<lambda>k acc. AList.update k (f k) acc) ks d) k =
     (if k \<in> set ks then Some (f k) else map_of d k)"
  by (induction ks arbitrary: d) (auto simp: update_conv')

lemma fold_update_keys:
  "fst ` set (fold (\<lambda>k acc. AList.update k (f k) acc) ks d) = set ks \<union> fst ` set d"
  by (induction ks arbitrary: d) (auto simp: dom_update)

lemma fold_update_is_dict:
  "is_dict d \<Longrightarrow> is_dict (fold (\<lambda>k acc. AList.update k (f k) acc) ks d)"
  unfolding is_dict_def
  by (induction ks arbitrary: d) (auto simp: distinct_update)

lemma map_fst_sort_key: "map fst (sort_key fst d) = sort (map fst d)"
proof -
  have "sort (map fst d) = map fst (sort_key fst d)"
    by (rule properties_for_sort) simp_all
  then show ?thesis by simp
qed

lemma Budget_init_dict:
  assumes "is_dict d"
  shows "orders (Budget_init d) = sort_key fst d"
proof -
  have "distinct (map fst (sort_key fst d))"
    using assms by (simp add: map_fst_sort_key is_dict_def)
  then show ?thesis
    by (simp add: Budget_init_def fold_update_fresh)
qed

lemma alphas_Budget_init:
  "is_dict d \<Longrightarrow> alphas (Budget_init d) = sort (map fst d)"
  by (simp add: alphas_def Budget_init_dict map_fst_sort_key)

lemma map_of_Budget_init:
  assumes "is_dict d"
  shows "map_of (orders (Budget_init d)) = map_of d"
proof -
  have "distinct (map fst (sort_key fst d))"
    using assms by (simp add: map_fst_sort_key is_dict_def)
  moreover have "distinct (map fst d)"
    using assms by (simp add: is_dict_def)
  moreover have "set (sort_key fst d) = set d"
    by simp
  ultimately have "map_of (sort_key fst d) = map_of d"
    by (simp add: map_of_inject_set)
  then show ?thesis
    using assms by (simp add: Budget_init_dict)
qed

lemma rdp_lower_envelope_finite:
  "0 < dlt \<Longrightarrow> alpha \<noteq> 1 \<Longrightarrow>
   rdp_lower_envelope eps dlt alpha = Fin (max (eps + ln dlt / (alpha - 1)) 0)"
  by (simp add: rdp_lower_envelope_def Let_def max_def)

text \<open>
  C8. For every epsilon, every delta > 0 and every alpha of the given list,
  \<open>from_epsilon_delta\<close> yields a budget whose value at alpha is exactly
  \<open>max(epsilon + ln(delta)/(alpha - 1), 0)\<close> (a finite float), and whose support is the
  given alpha list: the same set of alphas, listed in increasing order without repetition.
  The formula is read where it is defined, at \<open>alpha \<noteq> 1\<close> (an RDP order is greater
  than 1).
\<close>

theorem from_epsilon_delta_envelope:
  assumes "0 < dlt" and "alpha \<in> set alpha_list" and "alpha \<noteq> 1"
  shows "epsilon (from_epsilon_delta eps dlt alpha_list) alpha
           = Inr (Fin (max (eps + ln dlt / (alpha - 1)) 0))
         \<and> set (alphas (from_epsilon_delta eps dlt alpha_list)) = set alpha_list
         \<and> alphas (from_epsilon_delta eps dlt alpha_list) = sort (remdups alpha_list)"
proof -
  let ?d = "fold (\<lambda>alpha orders. AList.update alpha (rdp_lower_envelope eps dlt alpha) orders)
              alpha_list []"
  have d: "is_dict ?d"
    by (rule fold_update_is_dict) (simp add: is_dict_def)
  have keys: "set (map fst ?d) = set alpha_list"
    using fold_update_keys [of "rdp_lower_envelope eps dlt" alpha_list "[]"] by simp
  have "map_of (orders (from_epsilon_delta eps dlt alpha_list)) alpha
          = Some (rdp_lower_envelope eps dlt alpha)"
    using assms(2) d by (simp add: from_epsilon_delta_def map_of_Budget_init fold_update_map_of)
  then have 1: "epsilon (from_epsilon_delta eps dlt alpha_list) alpha
           = Inr (Fin (max (eps + ln dlt / (alpha - 1)) 0))"
    using assms(1,3) by (simp add: epsilon_def dict_get_def rdp_lower_envelope_finite)
  have al: "alphas (from_epsilon_delta eps dlt alpha_list) = sort (map fst ?d)"
    using d by (simp add: from_epsilon_delta_def alphas_Budget_init)
  have 2: "set (alphas (from_epsilon_delta eps dlt alpha_list)) = set alpha_list"
    using keys by (simp add: al)
  have "distinct (map fst ?d)"
    using d by (simp add: is_dict_def)
  then have "sort (map fst ?d) = sort (remdups alpha_list)"
    using keys by (intro sorted_distinct_set_unique) simp_all
  then have 3: "alphas (from_epsilon_delta eps dlt alpha_list) = sort (remdups alpha_list)"
    by (simp add: al)
  from 1 2 3 show ?thesis by blast
qed


theorem from_epsilon_delta_envelope_witness:
  "epsilon (from_epsilon_delta 10 (exp (- 4)) [3, 2]) 3 = Inr (Fin 8)
   \<and> epsilon (from_epsilon_delta 1 (exp (- 4)) [3, 2]) 2 = Inr (Fin 0)
   \<and> alphas (from_epsilon_delta 10 (exp (- 4)) [3, 2]) = [2, 3]"
proof -
  have a: "(0::real) < exp (- 4)" "(3::real) \<in> set [3, 2]" "(3::real) \<noteq> 1"
    "(2::real) \<in> set [3, 2]" "(2::real) \<noteq> 1"
    by simp_all
  show ?thesis
    using from_epsilon_delta_envelope [OF a(1) a(2) a(3), of 10]
      from_epsilon_delta_envelope [OF a(1) a(4) a(5), of 1]
    by simp
qed


subsection \<open>Equality: \<open>__eq__\<close>\<close>

lemma eq_loop_shared:
  "set as \<subseteq> set (alphas a) \<Longrightarrow> set as \<subseteq> set (alphas b) \<Longrightarrow>
   eq_loop a b as = Inr (\<forall>alpha\<in>set as. eps_at a alpha = eps_at b alpha)"
  by (induction as) (auto simp: epsilon_in_support)

text \<open>
  C9 (amended). For budgets \<open>a\<close> and \<open>b\<close> with the same alpha support, \<open>a == b\<close> returns
  (it does not raise) whether they assign equal epsilon to every alpha, and \<open>b == a\<close>
  gives the same answer.
\<close>

theorem budget_eq_same_support:
  assumes "set (alphas a) = set (alphas b)"
  shows "budget_eq a b = Inr (\<forall>alpha\<in>set (alphas a). epsilon a alpha = epsilon b alpha)
         \<and> budget_eq b a = budget_eq a b"
proof -
  have ab: "budget_eq a b = Inr (\<forall>alpha\<in>set (alphas a). eps_at a alpha = eps_at b alpha)"
    unfolding budget_eq_def using assms by (intro eq_loop_shared) simp_all
  have ba: "budget_eq b a = Inr (\<forall>alpha\<in>set (alphas b). eps_at b alpha = eps_at a alpha)"
    unfolding budget_eq_def using assms by (intro eq_loop_shared) simp_all
  have "(\<forall>alpha\<in>set (alphas a). eps_at a alpha = eps_at b alpha)
        \<longleftrightarrow> (\<forall>alpha\<in>set (alphas a). epsilon a alpha = epsilon b alpha)"
    using assms by (auto simp: epsilon_in_support)
  with ab ba assms show ?thesis by auto
qed

theorem budget_eq_same_support_witness:
  "budget_eq (Budget_init [(2, 1), (3, 5)]) (Budget_init [(3, 5), (2, 1)]) = Inr True
   \<and> budget_eq (Budget_init [(2, 1), (3, 5)]) (Budget_init [(3, 4), (2, 1)]) = Inr False
   \<and> budget_eq (Budget_init [(3, 4), (2, 1)]) (Budget_init [(2, 1), (3, 5)]) = Inr False"
proof -
  have 1: "set (alphas (Budget_init [(2, 1), (3, 5 :: real)]))
             = set (alphas (Budget_init [(3, 5), (2, 1 :: real)]))"
    by (simp add: Budget_init_def alphas_def)
  have 2: "set (alphas (Budget_init [(2, 1), (3, 5 :: real)]))
             = set (alphas (Budget_init [(3, 4), (2, 1 :: real)]))"
    by (simp add: Budget_init_def alphas_def)
  show ?thesis
    using budget_eq_same_support [OF 1] budget_eq_same_support [OF 2]
    by (simp add: Budget_init_def alphas_def epsilon_def dict_get_def)
qed

text \<open>
  The claim as first stated covers all budgets. The loop runs over the alphas of the
  left operand only: \<open>{2: 1} == {2: 1, 3: 5}\<close> is \<open>True\<close> although the supports differ,
  and \<open>{2: 1, 3: 5} == {2: 1}\<close> raises \<open>KeyError\<close>.
\<close>

theorem budget_eq_extra_alpha:
  "budget_eq (Budget_init [(2, 1)]) (Budget_init [(2, 1), (3, 5)]) = Inr True
   \<and> budget_eq (Budget_init [(2, 1), (3, 5)]) (Budget_init [(2, 1)]) = Inl KeyError
   \<and> alphas (Budget_init [(2, 1 :: real)]) = [2]
   \<and> alphas (Budget_init [(2, 1), (3, 5 :: real)]) = [2, 3]"
  by (simp add: budget_eq_def Budget_init_def alphas_def epsilon_def dict_get_def)

subsection \<open>The cached DP budget: \<open>dp_budget\<close>\<close>

text \<open>
  C4. For a budget \<open>b\<close> that has no cache yet, the first call \<open>b.dp_budget(delta)\<close>
  computes the conversion triple (epsilon and best alpha from the conversion of the
  budget's alphas and epsilons at \<open>delta\<close>, and \<open>delta\<close> itself) and caches it in the
  object; every later call on that object, for any \<open>delta'\<close> (and whatever the conversion
  would now return), returns the identical triple, whose delta field is the first
  \<open>delta\<close>, and leaves the object as it is.
\<close>

theorem dp_budget_cached_idempotent:
  assumes "dp_budget_cached b = None"
    and "gps (alphas b) (epsilons b) dlt = Inr (eps, best)"
  shows "\<exists>b'. dp_budget gps b dlt
                = Inr (\<lparr>dp_epsilon = eps, dp_delta = dlt, dp_best_alpha = best\<rparr>, b')
           \<and> orders b' = orders b
           \<and> dp_budget_cached b'
                = Some \<lparr>dp_epsilon = eps, dp_delta = dlt, dp_best_alpha = best\<rparr>
           \<and> (\<forall>gps' dlt'. dp_budget gps' b' dlt'
                = Inr (\<lparr>dp_epsilon = eps, dp_delta = dlt, dp_best_alpha = best\<rparr>, b'))"
proof -
  let ?t = "\<lparr>dp_epsilon = eps, dp_delta = dlt, dp_best_alpha = best\<rparr>"
  let ?b' = "b\<lparr>dp_budget_cached := Some ?t\<rparr>"
  have first: "dp_budget gps b dlt = Inr (?t, ?b')"
    using assms by (simp add: dp_budget_def Let_def)
  have later: "dp_budget gps' ?b' dlt' = Inr (?t, ?b')" for gps' dlt'
    by (simp add: dp_budget_def)
  from first later show ?thesis by auto
qed

theorem dp_budget_cached_idempotent_witness:
  "dp_budget (\<lambda>os rs d. Inr (hd rs + d, hd os)) (Budget_init [(2, 1)]) 3
     = Inr (\<lparr>dp_epsilon = 4, dp_delta = 3, dp_best_alpha = 2\<rparr>,
            \<lparr>orders = [(2, 1)],
             dp_budget_cached = Some \<lparr>dp_epsilon = 4, dp_delta = 3, dp_best_alpha = 2\<rparr>\<rparr>)
   \<and> dp_budget (\<lambda>os rs d. Inl ValueError)
       \<lparr>orders = [(2, 1)],
        dp_budget_cached = Some \<lparr>dp_epsilon = 4, dp_delta = 3, dp_best_alpha = 2\<rparr>\<rparr> 7
     = Inr (\<lparr>dp_epsilon = 4, dp_delta = 3, dp_best_alpha = 2\<rparr>,
            \<lparr>orders = [(2, 1)],
             dp_budget_cached = Some \<lparr>dp_epsilon = 4, dp_delta = 3, dp_best_alpha = 2\<rparr>\<rparr>)"
proof -
  let ?gps = "\<lambda>(os :: real list) (rs :: real list) (d :: real).
                (Inr (hd rs + d, hd os) :: py_error + real \<times> real)"
  let ?b = "Budget_init [(2, 1 :: real)]"
  have 1: "dp_budget_cached ?b = None"
    by (simp add: Budget_init_def)
  have 2: "?gps (alphas ?b) (epsilons ?b) 3 = Inr (4, 2)"
    by (simp add: Budget_init_def alphas_def epsilons_def)
  from dp_budget_cached_idempotent [of ?b ?gps 3 4 2, OF 1 2]
  obtain b' where b': "dp_budget ?gps ?b 3
        = Inr (\<lparr>dp_epsilon = 4, dp_delta = 3, dp_best_alpha = 2\<rparr>, b')"
     "orders b' = orders ?b"
     "dp_budget_cached b' = Some \<lparr>dp_epsilon = 4, dp_delta = 3, dp_best_alpha = 2\<rparr>"
     "\<And>gps' dlt'. dp_budget gps' b' dlt'
           = Inr (\<lparr>dp_epsilon = 4, dp_delta = 3, dp_best_alpha = 2\<rparr>, b')"
    by blast
  have "b' = \<lparr>orders = [(2, 1)],
             dp_budget_cached = Some \<lparr>dp_epsilon = 4, dp_delta = 3, dp_best_alpha = 2\<rparr>\<rparr>"
    using b'(2,3) by (cases b') (simp add: Budget_init_def)
  with b'(1) b'(4) [of "\<lambda>os rs d. Inl ValueError" 7] show ?thesis
    by simp
qed

section \<open>Block selection policies\<close>

lemma sample_from_props:
  "k \<le> length pool \<Longrightarrow>
   length (sample_from g pool k) = k \<and> set (sample_from g pool k) \<subseteq> set pool
   \<and> (distinct pool \<longrightarrow> distinct (sample_from g pool k))"
proof (induction k arbitrary: g pool)
  case 0
  then show ?case by simp
next
  case (Suc k)
  let ?j = "g 0 mod length pool"
  let ?rest = "take ?j pool @ drop (Suc ?j) pool"
  from Suc.prems have "0 < length pool" by (cases pool) simp_all
  then have j: "?j < length pool" by simp
  have split: "pool = take ?j pool @ pool ! ?j # drop (Suc ?j) pool"
    using j by (rule id_take_nth_drop)
  have len: "k \<le> length ?rest"
    using Suc.prems j by simp
  have sub: "set ?rest \<subseteq> set pool"
    by (metis Un_subset_iff set_append set_drop_subset set_take_subset)
  have dis: "distinct pool \<Longrightarrow> distinct ?rest \<and> pool ! ?j \<notin> set ?rest"
  proof -
    assume "distinct pool"
    then have "distinct (take ?j pool @ pool ! ?j # drop (Suc ?j) pool)"
      using split by simp
    then show ?thesis by auto
  qed
  from Suc.IH [OF len, of "\<lambda>i. g (Suc i)"]
  have ih: "length (sample_from (\<lambda>i. g (Suc i)) ?rest k) = k"
    "set (sample_from (\<lambda>i. g (Suc i)) ?rest k) \<subseteq> set ?rest"
    "distinct ?rest \<longrightarrow> distinct (sample_from (\<lambda>i. g (Suc i)) ?rest k)"
    by simp_all
  have mem: "pool ! ?j \<in> set pool"
    using j by simp
  show ?case
    using ih sub dis mem by (auto simp: Let_def)
qed


lemma py_range_length [simp]: "length (py_range a b) = nat (b - a)"
  by (simp add: py_range_def)

lemma py_range_distinct [simp]: "distinct (py_range a b)"
  by (simp add: py_range_def)

lemma py_range_set [simp]: "set (py_range a b) = {x. a \<le> x \<and> x < b}"
  by (auto simp: py_range_def)

lemma random_sample_ok:
  assumes "0 \<le> k" and "k \<le> int (length pop)" and "distinct pop"
  shows "\<exists>xs. random_sample g pop k = Inr xs \<and> int (length xs) = k \<and> distinct xs
              \<and> set xs \<subseteq> set pop"
proof -
  have "nat k \<le> length pop" using assms by simp
  from sample_from_props [OF this, of g] assms show ?thesis
    by (simp add: random_sample_def)
qed

lemma valid_selectionI:
  "int (length xs) = k \<Longrightarrow> distinct xs \<Longrightarrow> set xs \<subseteq> {x. 0 \<le> x \<and> x < n} \<Longrightarrow>
   valid_selection n k xs"
  by (auto simp: valid_selection_def list_all_iff)

lemma RandomBlocks_ok:
  assumes "0 \<le> k" and "k \<le> int (length blocks)"
  shows "\<exists>xs. RandomBlocks_select_blocks g blocks k = Inr xs
              \<and> valid_selection (int (length blocks)) k xs"
proof -
  from random_sample_ok [of k "py_range 0 (int (length blocks))" g] assms
  obtain xs where "random_sample g (py_range 0 (int (length blocks))) k = Inr xs"
    "int (length xs) = k" "distinct xs" "set xs \<subseteq> {x. 0 \<le> x \<and> x < int (length blocks)}"
    by auto
  then show ?thesis
    using assms by (auto simp: RandomBlocks_select_blocks_def Let_def intro: valid_selectionI)
qed

lemma LatestBlocksFirst_ok:
  assumes "0 \<le> k" and "k \<le> int (length blocks)"
  shows "\<exists>xs. LatestBlocksFirst_select_blocks g blocks k = Inr xs
              \<and> valid_selection (int (length blocks)) k xs"
  using assms
  by (auto simp: LatestBlocksFirst_select_blocks_def Let_def intro!: valid_selectionI)

lemma ContiguousBlocksRandomOffset_ok:
  assumes "0 \<le> k" and "k \<le> int (length blocks)"
  shows "\<exists>xs. ContiguousBlocksRandomOffset_select_blocks g blocks k = Inr xs
              \<and> valid_selection (int (length blocks)) k xs"
proof -
  let ?n = "int (length blocks)"
  let ?off = "int (g 0 mod nat (?n - k + 1))"
  have pos: "0 < nat (?n - k + 1)" using assms by simp
  have "g 0 mod nat (?n - k + 1) < nat (?n - k + 1)"
    using pos by (rule mod_less_divisor)
  then have off: "0 \<le> ?off" "?off \<le> ?n - k" by linarith+
  have r: "random_randint g 0 (?n - k) = Inr ?off"
    using assms by (simp add: random_randint_def)
  have "valid_selection ?n k (py_range ?off (?off + k))"
    using off assms by (intro valid_selectionI) auto
  then show ?thesis
    using assms r by (simp add: ContiguousBlocksRandomOffset_select_blocks_def Let_def)
qed

lemma BiasedRandomBlocks_ok:
  assumes "0 \<le> k" and "k \<le> int (length blocks)"
  shows "\<exists>xs. BiasedRandomBlocks_select_blocks g blocks k = Inr xs
              \<and> valid_selection (int (length blocks)) k xs"
proof -
  let ?n = "int (length blocks)"
  let ?all = "py_range 0 ?n"
  let ?even = "filter (\<lambda>i. i mod 2 = 0) ?all"
  let ?odd = "filter (\<lambda>i. i mod 2 \<noteq> 0) ?all"
  let ?g' = "\<lambda>i. g (Suc i)"
  let ?diff = "k - int (length ?even)"
  have split: "length ?even + length ?odd = length ?all"
    by (rule sum_length_filter_compl)
  show ?thesis
  proof (cases "g 0 mod 2 = 0")
    case False
    from random_sample_ok [of k ?all ?g'] assms
    obtain xs where "random_sample ?g' ?all k = Inr xs"
      "int (length xs) = k" "distinct xs" "set xs \<subseteq> {x. 0 \<le> x \<and> x < ?n}"
      by auto
    then show ?thesis
      using assms False
      by (auto simp: BiasedRandomBlocks_select_blocks_def Let_def intro: valid_selectionI)
  next
    case True
    show ?thesis
    proof (cases "?diff > 0")
      case d: True
      have le: "?diff \<le> int (length ?odd)"
        using split assms by simp
      from random_sample_ok [of ?diff ?odd ?g'] d le
      obtain xs where xs: "random_sample ?g' ?odd ?diff = Inr xs"
        "int (length xs) = ?diff" "distinct xs" "set xs \<subseteq> set ?odd"
        by auto
      have "valid_selection ?n k (?even @ xs)"
      proof (rule valid_selectionI)
        show "int (length (?even @ xs)) = k" using xs(2) by simp
        show "distinct (?even @ xs)" using xs(3,4) by auto
        show "set (?even @ xs) \<subseteq> {x. 0 \<le> x \<and> x < ?n}" using xs(4) by auto
      qed
      then show ?thesis
        using assms True d xs(1)
        by (simp add: BiasedRandomBlocks_select_blocks_def Let_def)
    next
      case d: False
      then have le: "k \<le> int (length ?even)" by simp
      from random_sample_ok [of k ?even ?g'] assms(1) le
      obtain xs where xs: "random_sample ?g' ?even k = Inr xs"
        "int (length xs) = k" "distinct xs" "set xs \<subseteq> set ?even"
        by auto
      have "valid_selection ?n k xs"
        using xs by (intro valid_selectionI) auto
      then show ?thesis
        using assms True d xs(1)
        by (simp add: BiasedRandomBlocks_select_blocks_def Let_def)
    qed
  qed
qed

lemma sum_list_pos_real:
  "xs \<noteq> [] \<Longrightarrow> \<forall>x\<in>set xs. (0::real) < x \<Longrightarrow> 0 < sum_list xs"
proof (induction xs)
  case Nil
  then show ?case by simp
next
  case (Cons x xs)
  have "0 \<le> sum_list xs"
    using Cons.prems(2) by (intro sum_list_nonneg) (simp add: less_imp_le)
  moreover have "0 < x" using Cons.prems(2) by simp
  ultimately show ?case by simp
qed

lemma sum_list_scaled: "sum_list (map (\<lambda>d. d / c) xs) = sum_list xs / (c::real)"
  by (induction xs) (simp_all add: add_divide_distrib)

lemma zeta_density_props:
  assumes "0 < n"
  shows "length (zeta_density s n) = nat n"
    and "\<forall>x\<in>set (zeta_density s n). 0 < x"
    and "sum_list (zeta_density s n) = 1"
proof -
  let ?d = "map (\<lambda>k. real_of_int (k + 1) powr (- s)) (py_range 0 n)"
  have ne: "?d \<noteq> []"
  proof
    assume "?d = []"
    then have "length ?d = 0" by simp
    with assms show False by simp
  qed
  have pos: "\<forall>x\<in>set ?d. 0 < x"
    by auto
  have S: "0 < sum_list ?d"
    using ne pos by (rule sum_list_pos_real)
  show "length (zeta_density s n) = nat n"
    by (simp add: zeta_density_def Let_def)
  show "\<forall>x\<in>set (zeta_density s n). 0 < x"
    using pos S unfolding zeta_density_def Let_def by auto
  have "sum_list (map (\<lambda>d. d / sum_list ?d) ?d) = sum_list ?d / sum_list ?d"
    by (rule sum_list_scaled)
  also have "\<dots> = 1" using S by simp
  finally show "sum_list (zeta_density s n) = 1"
    unfolding zeta_density_def Let_def .
qed

lemma Zeta_ok:
  assumes "0 < k" and "k \<le> int (length blocks)"
  shows "\<exists>xs. Zeta_select_blocks s g blocks k = Inr xs
              \<and> valid_selection (int (length blocks)) k xs"
proof -
  let ?n = "int (length blocks)"
  let ?p = "zeta_density s ?n"
  have n: "0 < ?n" using assms by linarith
  note zp = zeta_density_props [OF n, of s]
  have all_pos: "filter (\<lambda>x. x > 0) ?p = ?p"
    using zp(2) by (simp add: filter_id_conv)
  have no_neg: "\<not> list_ex (\<lambda>x. x < 0) ?p"
    using zp(2) by (auto simp: list_ex_iff dest: less_asym)
  have "\<forall>i\<in>set (py_range 0 ?n). ?p ! nat i > 0"
  proof
    fix i assume "i \<in> set (py_range 0 ?n)"
    then have "nat i < length ?p" using zp(1) by auto
    then have "?p ! nat i \<in> set ?p" by (rule nth_mem)
    with zp(2) show "?p ! nat i > 0" by blast
  qed
  then have pool: "filter (\<lambda>i. ?p ! nat i > 0) (py_range 0 ?n) = py_range 0 ?n"
    by (simp add: filter_id_conv)
  have ch: "np_random_choice g ?n k ?p = Inr (sample_from g (py_range 0 ?n) (nat k))"
    using assms n zp(1,3) all_pos no_neg pool
    by (simp add: np_random_choice_def)
  have "nat k \<le> length (py_range 0 ?n)" using assms by simp
  from sample_from_props [OF this, of g]
  have "valid_selection ?n k (sample_from g (py_range 0 ?n) (nat k))"
    using assms by (intro valid_selectionI) auto
  with ch assms show ?thesis
    by (simp add: Zeta_select_blocks_def Let_def)
qed


section \<open>The local knapsack of \<open>ArgmaxKnapsack\<close>\<close>

lemma knapsack_fold_mono:
  "opt \<le> fst (fold (knapsack_step c) xs (opt, s))"
proof (induction xs arbitrary: opt s)
  case Nil
  then show ?case by simp
next
  case (Cons x xs)
  show ?case
  proof (cases "pf_le (Fin (s + x)) c")
    case True
    then have step: "knapsack_step c x (opt, s) = (opt + 1, s + x)"
      by (simp add: knapsack_step_def)
    have "opt + 1 \<le> fst (fold (knapsack_step c) xs (opt + 1, s + x))"
      by (rule Cons.IH)
    then show ?thesis by (simp add: step)
  next
    case False
    then have step: "knapsack_step c x (opt, s) = (opt, s)"
      by (simp add: knapsack_step_def)
    with Cons.IH [of opt s] show ?thesis by simp
  qed
qed

lemma knapsack_step_Fin:
  "knapsack_step (Fin c) x (opt, s) = (if s + x \<le> c then (opt + 1, s + x) else (opt, s))"
  by (auto simp: knapsack_step_def pf_le_def)

lemma sum_mset_ge_member:
  "M \<noteq> {#} \<Longrightarrow> \<forall>y\<in>#M. x \<le> y \<Longrightarrow> (0::real) \<le> x \<Longrightarrow> x \<le> sum_mset M"
proof (induction M)
  case empty
  then show ?case by simp
next
  case (add y M)
  have xy: "x \<le> y" using add.prems(2) by simp
  show ?case
  proof (cases "M = {#}")
    case True
    with xy show ?thesis by simp
  next
    case False
    then have "x \<le> sum_mset M"
      using add.IH add.prems(2,3) by simp
    with xy add.prems(3) show ?thesis by simp
  qed
qed

lemma knapsack_fold_upper:
  "sorted xs \<Longrightarrow> s \<le> c \<Longrightarrow> M \<subseteq># mset xs \<Longrightarrow> s + sum_mset M \<le> c \<Longrightarrow>
   opt + int (size M) \<le> fst (fold (knapsack_step (Fin c)) xs (opt, s))"
proof (induction xs arbitrary: opt s M)
  case Nil
  then show ?case by simp
next
  case (Cons x xs)
  have sorted: "sorted xs" and low: "\<forall>y\<in>set xs. x \<le> y"
    using Cons.prems(1) by simp_all
  show ?case
  proof (cases "s + x \<le> c")
    case True
    then have step: "fold (knapsack_step (Fin c)) (x # xs) (opt, s)
                     = fold (knapsack_step (Fin c)) xs (opt + 1, s + x)"
      by (simp add: knapsack_step_Fin)
    show ?thesis
    proof (cases "M = {#}")
      case True
      have "opt + 1 \<le> fst (fold (knapsack_step (Fin c)) xs (opt + 1, s + x))"
        by (rule knapsack_fold_mono)
      with True step show ?thesis by simp
    next
      case False
      obtain y where y: "y \<in># M" "x \<le> y" "M - {#y#} \<subseteq># mset xs"
      proof (cases "x \<in># M")
        case True
        have "M - {#x#} \<subseteq># mset xs"
          using Cons.prems(3) by (simp add: subset_eq_diff_conv)
        with True show ?thesis using that [of x] by simp
      next
        case nx: False
        then have sub: "M \<subseteq># mset xs"
          using Cons.prems(3) by (metis diff_single_trivial mset.simps(2) subset_eq_diff_conv add_mset_add_single)
        from False obtain y where yM: "y \<in># M" by (auto simp: multiset_nonemptyE)
        then have "y \<in> set xs" using sub by (metis mset_subset_eqD set_mset_mset)
        moreover have "M - {#y#} \<subseteq># mset xs"
          using sub by (meson diff_subset_eq_self subset_mset.order_trans)
        ultimately show ?thesis using that [of y] yM low by simp
      qed
      let ?M' = "M - {#y#}"
      have M: "M = add_mset y ?M'" using y(1) by simp
      have sumM: "sum_mset M = y + sum_mset ?M'"
        by (subst M) simp
      have sizeM: "size M = Suc (size ?M')"
        by (subst M) simp
      have "(s + x) + sum_mset ?M' \<le> c"
        using Cons.prems(4) y(2) sumM by linarith
      from Cons.IH [OF sorted True y(3) this, of "opt + 1"]
      show ?thesis using step sizeM by simp
    qed
  next
    case False
    then have step: "fold (knapsack_step (Fin c)) (x # xs) (opt, s)
                     = fold (knapsack_step (Fin c)) xs (opt, s)"
      by (simp add: knapsack_step_Fin)
    have xpos: "0 < x" using False Cons.prems(2) by linarith
    have "M = {#}"
    proof (rule ccontr)
      assume ne: "M \<noteq> {#}"
      have "\<forall>y\<in>#M. x \<le> y"
      proof
        fix y assume "y \<in># M"
        then have "y \<in> set (x # xs)"
          using Cons.prems(3) by (metis mset_subset_eqD set_mset_mset)
        then show "x \<le> y" using low by auto
      qed
      from sum_mset_ge_member [OF ne this] xpos have "x \<le> sum_mset M" by simp
      with False Cons.prems(4) show False by linarith
    qed
    with step knapsack_fold_mono [of opt "Fin c" xs s] show ?thesis by simp
  qed
qed

lemma knapsack_fold_achieved:
  "\<exists>M. M \<subseteq># mset xs \<and> s + sum_mset M \<le> c
       \<and> fst (fold (knapsack_step (Fin c)) xs (opt, s)) = opt + int (size M)" if "s \<le> c"
  using that
proof (induction xs arbitrary: opt s)
  case Nil
  then show ?case by simp
next
  case (Cons x xs)
  show ?case
  proof (cases "s + x \<le> c")
    case True
    from Cons.IH [OF True, of "opt + 1"] obtain M where
      M: "M \<subseteq># mset xs" "s + x + sum_mset M \<le> c"
         "fst (fold (knapsack_step (Fin c)) xs (opt + 1, s + x)) = opt + 1 + int (size M)"
      by blast
    have "add_mset x M \<subseteq># mset (x # xs)" using M(1) by simp
    moreover have "s + sum_mset (add_mset x M) \<le> c" using M(2) by (simp add: add.assoc)
    moreover have "fst (fold (knapsack_step (Fin c)) (x # xs) (opt, s))
                   = opt + int (size (add_mset x M))"
      using True M(3) by (simp add: knapsack_step_Fin)
    ultimately show ?thesis by blast
  next
    case False
    from Cons.IH [OF Cons.prems, of opt] obtain M where
      M: "M \<subseteq># mset xs" "s + sum_mset M \<le> c"
         "fst (fold (knapsack_step (Fin c)) xs (opt, s)) = opt + int (size M)"
      by blast
    have "M \<subseteq># mset (x # xs)"
      using M(1) subset_mset.trans by fastforce
    moreover have "fst (fold (knapsack_step (Fin c)) (x # xs) (opt, s)) = opt + int (size M)"
      using False M(3) by (simp add: knapsack_step_Fin)
    ultimately show ?thesis using M(2) by blast
  qed
qed


lemma subseq_mset_mono: "subseq xs ys \<Longrightarrow> mset xs \<subseteq># mset ys"
proof (induction rule: list_emb.induct)
  case (list_emb_Nil ys)
  then show ?case by simp
next
  case (list_emb_Cons xs ys y)
  then show ?case using subset_mset.trans by fastforce
next
  case (list_emb_Cons2 x y xs ys)
  then show ?case by simp
qed

lemma submultiset_subseq:
  "M \<subseteq># mset (map f xs) \<Longrightarrow> \<exists>ys. subseq ys xs \<and> mset (map f ys) = M"
proof (induction xs arbitrary: M)
  case Nil
  then show ?case by simp
next
  case (Cons x xs)
  show ?case
  proof (cases "f x \<in># M")
    case True
    have "M - {#f x#} \<subseteq># mset (map f xs)"
      using Cons.prems by (simp add: subset_eq_diff_conv)
    from Cons.IH [OF this] obtain ys where ys: "subseq ys xs" "mset (map f ys) = M - {#f x#}"
      by blast
    have "subseq (x # ys) (x # xs)" using ys(1) by simp
    moreover have "mset (map f (x # ys)) = M" using ys(2) True by simp
    ultimately show ?thesis by blast
  next
    case False
    then have "M \<subseteq># mset (map f xs)"
      using Cons.prems
      by (metis diff_single_trivial list.simps(9) mset.simps(2) subset_eq_diff_conv
          add_mset_add_single)
    from Cons.IH [OF this] obtain ys where ys: "subseq ys xs" "mset (map f ys) = M"
      by blast
    then have "subseq ys (x # xs)" by auto
    with ys(2) show ?thesis by blast
  qed
qed


section \<open>The termination clock\<close>

text \<open>
  C6 (amended). In the resource manager's event loop, after the
  block-production-terminated event ("last block emitted") fires at a time \<open>t0\<close>, the
  termination clock waits \<open>block_arrival_interval\<close> ticks (not \<open>data_lifetime\<close> ticks) and
  then triggers \<open>task_production_terminated\<close>, unless it has been triggered already: task
  production terminates at \<open>t0 + block_arrival_interval\<close>. Only after that does the clock
  wait \<open>data_lifetime\<close> ticks, and it ends at
  \<open>t0 + block_arrival_interval + data_lifetime\<close>.
\<close>

theorem termination_clock_timing:
  assumes "0 \<le> block_arrival_interval cfg" and "0 \<le> data_lifetime cfg"
  shows "run_clock cfg t0 NotStarted s =
           Inr (s\<lparr>now := t0 + block_arrival_interval cfg + data_lifetime cfg,
                  task_production_terminated :=
                    (case task_production_terminated s of
                       None \<Rightarrow> Some (t0 + block_arrival_interval cfg)
                     | Some t \<Rightarrow> Some t)\<rparr>)"
  using assms by (cases "task_production_terminated s") (simp_all add: Let_def)

theorem termination_clock_timing_witness:
  "run_clock \<lparr>block_arrival_interval = 1, data_lifetime = 5\<rparr> 10 NotStarted
       \<lparr>now = 0, task_production_terminated = None\<rparr>
     = Inr \<lparr>now = 16, task_production_terminated = Some 11\<rparr>
   \<and> run_clock \<lparr>block_arrival_interval = 1, data_lifetime = 5\<rparr> 10 NotStarted
       \<lparr>now = 0, task_production_terminated = Some 3\<rparr>
     = Inr \<lparr>now = 16, task_production_terminated = Some 3\<rparr>"
proof -
  have 1: "0 \<le> block_arrival_interval \<lparr>block_arrival_interval = 1, data_lifetime = 5\<rparr>"
    and 2: "0 \<le> data_lifetime \<lparr>block_arrival_interval = 1, data_lifetime = 5\<rparr>"
    by simp_all
  from termination_clock_timing [OF 1 2, of 10 "\<lparr>now = 0, task_production_terminated = None\<rparr>"]
    termination_clock_timing [OF 1 2, of 10 "\<lparr>now = 0, task_production_terminated = Some 3\<rparr>"]
  show ?thesis by simp
qed

text \<open>
  The claim as first stated has task production terminated no earlier than \<open>data_lifetime\<close>
  ticks after the last block. With the interval of \<open>Config\<close> and a data lifetime of 5, the
  last block at time 10 is followed by the end of task production at time 11.
\<close>

theorem termination_clock_before_data_lifetime:
  "run_clock \<lparr>block_arrival_interval = Config_block_arrival_interval, data_lifetime = 5\<rparr>
       10 NotStarted \<lparr>now = 0, task_production_terminated = None\<rparr>
     = Inr \<lparr>now = 16, task_production_terminated = Some 11\<rparr>
   \<and> (11 :: real) < 10 + data_lifetime
         \<lparr>block_arrival_interval = Config_block_arrival_interval, data_lifetime = 5\<rparr>"
  by (simp add: Config_block_arrival_interval_def Let_def)
section \<open>\<open>OverflowRelevance\<close>\<close>

lemma for_each_sim:
  assumes "\<And>x s. x \<in> set xs \<Longrightarrow> P s \<Longrightarrow> \<exists>s'. body x s = Inr s' \<and> P s' \<and> view s' = g x (view s)"
    and "P s"
  shows "\<exists>s'. for_each xs body s = Inr s' \<and> P s' \<and> view s' = fold g xs (view s)"
  using assms
proof (induction xs arbitrary: s)
  case Nil
  then show ?case by simp
next
  case (Cons x xs)
  from Cons.prems(1) [of x s] Cons.prems(2)
  obtain s1 where s1: "body x s = Inr s1" "P s1" "view s1 = g x (view s)"
    by auto
  have "\<exists>s'. for_each xs body s1 = Inr s' \<and> P s' \<and> view s' = fold g xs (view s1)"
    using Cons.prems(1) s1(2) by (intro Cons.IH) auto
  then show ?case using s1 by auto
qed

lemma fold_concat_map: "fold f (concat (map h xs)) m = fold (\<lambda>x. fold f (h x)) xs m"
  by (induction xs arbitrary: m) simp_all

lemma lookup2_update_row:
  "lookup2 (AList.update b row ov) = (\<lambda>(b', a). if b' = b then map_of row a else lookup2 ov (b', a))"
  by (auto simp: lookup2_def fun_eq_iff update_conv')

lemma overflow_add_alpha_sim:
  assumes "map_of ov b \<noteq> None" and "map_of blocks b = Some blk"
    and "a \<in> set (alphas (initial_budget blk))" and "a \<in> set (alphas d)"
  shows "\<exists>ov'. overflow_add_alpha blocks b d a ov = Inr ov' \<and> map_of ov' b \<noteq> None
              \<and> lookup2 ov' = acc_step blocks (b, a, eps_at d a) (lookup2 ov)"
proof -
  from assms(1) obtain row where row: "map_of ov b = Some row" by auto
  have init: "epsilon (initial_budget blk) a = Inr (initial_epsilon blocks b a)"
    using assms(2,3) by (simp add: epsilon_in_support initial_epsilon_def)
  have dem: "epsilon d a = Inr (eps_at d a)"
    using assms(4) by (rule epsilon_in_support)
  define base where "base = (case map_of row a of None \<Rightarrow> - initial_epsilon blocks b a | Some v \<Rightarrow> v)"
  define row1 where "row1 = (if map_of row a = None then AList.update a (- initial_epsilon blocks b a) row else row)"
  have cur: "map_of row1 a = Some base"
    by (cases "map_of row a") (auto simp: row1_def base_def update_conv')
  have run: "overflow_add_alpha blocks b d a ov
               = Inr (AList.update b (AList.update a (base + eps_at d a) row1) ov)"
    using row init dem cur assms(2)
    by (cases "map_of row a") (auto simp: overflow_add_alpha_def dict_get_def row1_def)
  have other: "map_of row1 a' = map_of row a'" if "a' \<noteq> a" for a'
    using that by (simp add: row1_def update_conv')
  have "lookup2 (AList.update b (AList.update a (base + eps_at d a) row1) ov)
          = acc_step blocks (b, a, eps_at d a) (lookup2 ov)"
    using row other
    by (auto simp: lookup2_update_row acc_step_def fun_eq_iff update_conv' lookup2_def base_def)
  moreover have "map_of (AList.update b (AList.update a (base + eps_at d a) row1) ov) b \<noteq> None"
    by (simp add: update_conv')
  ultimately show ?thesis using run by simp
qed

lemma overflow_add_block_sim:
  assumes "map_of blocks b = Some blk"
    and "\<forall>a\<in>set (alphas d). a \<in> set (alphas (initial_budget blk))"
  shows "\<exists>ov'. overflow_add_block blocks (b, d) ov = Inr ov'
              \<and> lookup2 ov' = fold (acc_step blocks) (entries_of_demand (b, d)) (lookup2 ov)"
proof -
  define ov1 where "ov1 = (if map_of ov b = None then AList.update b [] ov else ov)"
  have p: "map_of ov1 b \<noteq> None"
    by (simp add: ov1_def update_conv')
  have same: "lookup2 ov1 = lookup2 ov"
    by (auto simp: ov1_def lookup2_update_row fun_eq_iff) (simp add: lookup2_def)
  have "\<exists>ov'. for_each (alphas d) (overflow_add_alpha blocks b d) ov1 = Inr ov'
          \<and> map_of ov' b \<noteq> None
          \<and> lookup2 ov' = fold (\<lambda>a. acc_step blocks (b, a, eps_at d a)) (alphas d) (lookup2 ov1)"
  proof (rule for_each_sim [where P = "\<lambda>s :: (int \<times> (real \<times> real) list) list. map_of s b \<noteq> None"
        and view = lookup2
        and g = "\<lambda>a. acc_step blocks (b, a, eps_at d a)"])
    show "map_of ov1 b \<noteq> None" by (rule p)
  next
    fix a and s :: "(int \<times> (real \<times> real) list) list"
    assume "a \<in> set (alphas d)" and "map_of s b \<noteq> None"
    then show "\<exists>s'. overflow_add_alpha blocks b d a s = Inr s' \<and> map_of s' b \<noteq> None
                 \<and> lookup2 s' = acc_step blocks (b, a, eps_at d a) (lookup2 s)"
      using assms by (intro overflow_add_alpha_sim) auto
  qed
  then obtain ov' where "for_each (alphas d) (overflow_add_alpha blocks b d) ov1 = Inr ov'"
    "lookup2 ov' = fold (\<lambda>a. acc_step blocks (b, a, eps_at d a)) (alphas d) (lookup2 ov)"
    using same by auto
  then show ?thesis
    by (simp add: overflow_add_block_def ov1_def [symmetric] entries_of_demand_def
        fold_map comp_def)
qed

lemma overflow_add_task_sim:
  assumes "blocks_cover blocks t"
  shows "\<exists>ov'. overflow_add_task blocks t ov = Inr ov'
              \<and> lookup2 ov' = fold (acc_step blocks) (entries_of_task t) (lookup2 ov)"
proof -
  have "\<exists>ov'. for_each (budget_per_block t) (overflow_add_block blocks) ov = Inr ov' \<and> True
          \<and> lookup2 ov' = fold (\<lambda>x. fold (acc_step blocks) (entries_of_demand x))
                             (budget_per_block t) (lookup2 ov)"
  proof (rule for_each_sim [where P = "\<lambda>s. True" and view = lookup2
        and g = "\<lambda>x. fold (acc_step blocks) (entries_of_demand x)"])
    show True by simp
  next
    fix x s
    assume x: "x \<in> set (budget_per_block t)"
    obtain b d where bd: "x = (b, d)" by (cases x)
    from assms x bd obtain blk where "map_of blocks b = Some blk"
      "\<forall>a\<in>set (alphas d). a \<in> set (alphas (initial_budget blk))"
      by (auto simp: blocks_cover_def list_all_iff split: option.splits)
    from overflow_add_block_sim [OF this, of s]
    show "\<exists>s'. overflow_add_block blocks x s = Inr s' \<and> True
            \<and> lookup2 s' = fold (acc_step blocks) (entries_of_demand x) (lookup2 s)"
      using bd by simp
  qed
  then show ?thesis
    by (simp add: overflow_add_task_def entries_of_task_def fold_concat_map)
qed

lemma overflow_loop_sim:
  assumes "\<forall>t\<in>set ts. blocks_cover blocks t"
  shows "\<exists>ov'. for_each ts (overflow_add_task blocks) ov = Inr ov'
              \<and> lookup2 ov' = fold (acc_step blocks) (concat (map entries_of_task ts)) (lookup2 ov)"
proof -
  have "\<exists>ov'. for_each ts (overflow_add_task blocks) ov = Inr ov' \<and> True
          \<and> lookup2 ov' = fold (\<lambda>t. fold (acc_step blocks) (entries_of_task t)) ts (lookup2 ov)"
  proof (rule for_each_sim [where P = "\<lambda>s. True" and view = lookup2
        and g = "\<lambda>t. fold (acc_step blocks) (entries_of_task t)"])
    show True by simp
  next
    fix t s
    assume "t \<in> set ts"
    then have "blocks_cover blocks t" using assms by simp
    from overflow_add_task_sim [OF this, of s]
    show "\<exists>s'. overflow_add_task blocks t s = Inr s' \<and> True
            \<and> lookup2 s' = fold (acc_step blocks) (entries_of_task t) (lookup2 s)"
      by simp
  qed
  then show ?thesis
    by (simp add: fold_concat_map)
qed

lemma entry_sum_simps [simp]:
  "entry_sum [] k = 0"
  "entry_sum ((b, a, e) # E) k = (if (b, a) = k then e else 0) + entry_sum E k"
  "entry_sum (E @ E') k = entry_sum E k + entry_sum E' k"
  by (simp_all add: entry_sum_def)

lemma entry_keys_simps [simp]:
  "entry_keys [] = {}"
  "entry_keys ((b, a, e) # E) = insert (b, a) (entry_keys E)"
  "entry_keys (E @ E') = entry_keys E \<union> entry_keys E'"
  by (auto simp: entry_keys_def)

lemma fold_acc_step:
  "fold (acc_step blocks) E m (b, a) =
     (case m (b, a) of
        Some v \<Rightarrow> Some (v + entry_sum E (b, a))
      | None \<Rightarrow> if (b, a) \<in> entry_keys E
                then Some (- initial_epsilon blocks b a + entry_sum E (b, a)) else None)"
proof (induction E arbitrary: m)
  case Nil
  then show ?case by (simp split: option.splits)
next
  case (Cons x E)
  obtain b' a' e where x: "x = (b', a', e)" by (cases x)
  show ?case
    unfolding x fold_simps Cons.IH
    by (auto simp: acc_step_def split: option.splits)
qed

lemma entry_sum_task: "entry_sum (entries_of_task t) (b, a) = demand_sum t b a"
proof -
  have inner: "entry_sum (entries_of_demand (b', d)) (b, a)
        = (\<Sum>a' \<leftarrow> alphas d. if b' = b \<and> a' = a then eps_at d a' else 0)" for b' d
    unfolding entries_of_demand_def by (induction "alphas d") (simp_all add: entry_sum_def comp_def)
  have "entry_sum (concat (map entries_of_demand xs)) (b, a)
        = (\<Sum>(b', d) \<leftarrow> xs. \<Sum>a' \<leftarrow> alphas d. if b' = b \<and> a' = a then eps_at d a' else 0)" for xs
  proof (induction xs)
    case Nil
    then show ?case by simp
  next
    case (Cons x xs)
    obtain b' d where "x = (b', d)" by (cases x)
    with Cons inner [of b' d] show ?case by simp
  qed
  then show ?thesis
    by (simp add: entries_of_task_def demand_sum_def)
qed

lemma entry_sum_tasks:
  "entry_sum (concat (map entries_of_task ts)) (b, a) = (\<Sum>t \<leftarrow> ts. demand_sum t b a)"
  by (induction ts) (simp_all add: entry_sum_task)

lemma entry_keys_demand:
  "(b, a) \<in> entry_keys (entries_of_demand (b', d)) \<longleftrightarrow> b = b' \<and> a \<in> set (alphas d)"
  by (auto simp: entry_keys_def entries_of_demand_def image_image)

lemma entry_keys_concat:
  "entry_keys (concat (map h xs)) = (\<Union>x\<in>set xs. entry_keys (h x))"
  by (induction xs) simp_all

lemma entry_keys_task: "(b, a) \<in> entry_keys (entries_of_task t) \<longleftrightarrow> touches t b a"
proof
  assume "(b, a) \<in> entry_keys (entries_of_task t)"
  then obtain x where x: "x \<in> set (budget_per_block t)" "(b, a) \<in> entry_keys (entries_of_demand x)"
    unfolding entries_of_task_def entry_keys_concat by blast
  obtain b' d where "x = (b', d)" by (cases x)
  with x show "touches t b a"
    by (auto simp: entry_keys_demand touches_def)
next
  assume "touches t b a"
  then obtain d where d: "(b, d) \<in> set (budget_per_block t)" "a \<in> set (alphas d)"
    by (auto simp: touches_def)
  then have "(b, a) \<in> entry_keys (entries_of_demand (b, d))"
    by (simp add: entry_keys_demand)
  with d(1) show "(b, a) \<in> entry_keys (entries_of_task t)"
    unfolding entries_of_task_def entry_keys_concat by blast
qed

lemma entry_keys_tasks:
  "(b, a) \<in> entry_keys (concat (map entries_of_task ts)) \<longleftrightarrow> (\<exists>t\<in>set ts. touches t b a)"
  unfolding entry_keys_concat by (simp add: entry_keys_task)

lemma overflow_loop_result:
  assumes "\<forall>t\<in>set ts. blocks_cover blocks t"
  shows "\<exists>ov. for_each ts (overflow_add_task blocks) [] = Inr ov
            \<and> (\<forall>b a. lookup2 ov (b, a) =
                  (if \<exists>t\<in>set ts. touches t b a then Some ((\<Sum>t \<leftarrow> ts. demand_sum t b a) - initial_epsilon blocks b a)
                   else None))"
proof -
  from overflow_loop_sim [OF assms, of "[]"] obtain ov where
    ov: "for_each ts (overflow_add_task blocks) [] = Inr ov"
      "lookup2 ov = fold (acc_step blocks) (concat (map entries_of_task ts)) (lookup2 [])"
    by blast
  have empty: "lookup2 ([] :: (int \<times> (real \<times> real) list) list) (b, a) = None" for b a
    by (simp add: lookup2_def)
  have "lookup2 ov (b, a) =
          (if \<exists>t\<in>set ts. touches t b a then Some ((\<Sum>t \<leftarrow> ts. demand_sum t b a) - initial_epsilon blocks b a) else None)"
    for b a
    unfolding ov(2) fold_acc_step empty
    by (simp add: entry_keys_tasks entry_sum_tasks)
  with ov(1) show ?thesis by blast
qed

lemma lookup2_SomeD:
  "lookup2 ov (b, a) = Some v \<Longrightarrow> \<exists>row. dict_get ov b = Inr row \<and> dict_get row a = Inr v"
  by (auto simp: lookup2_def dict_get_def split: option.splits)

lemma block_cost_eval:
  assumes "\<forall>a\<in>set as. a \<in> set (alphas d) \<and> lookup2 ov (b, a) = Some (ovf a)"
  shows "block_cost ov b d as acc =
           Inr (if \<forall>a\<in>set as. 0 < ovf a then acc + (\<Sum>a \<leftarrow> as. eps_at d a / ovf a) else 0)"
  using assms
proof (induction as arbitrary: acc)
  case Nil
  then show ?case by simp
next
  case (Cons a as)
  have e: "epsilon d a = Inr (eps_at d a)"
    using Cons.prems by (simp add: epsilon_in_support)
  from Cons.prems have "lookup2 ov (b, a) = Some (ovf a)" by simp
  from lookup2_SomeD [OF this] obtain row where
    row: "dict_get ov b = Inr row" "dict_get row a = Inr (ovf a)"
    by blast
  show ?case
  proof (cases "0 < ovf a")
    case True
    have "block_cost ov b d as (acc + eps_at d a / ovf a) =
            Inr (if \<forall>a\<in>set as. 0 < ovf a
                 then acc + eps_at d a / ovf a + (\<Sum>a \<leftarrow> as. eps_at d a / ovf a) else 0)"
      using Cons.prems by (intro Cons.IH) simp
    with True e row show ?thesis by (simp add: add.assoc)
  next
    case False
    with e row show ?thesis by auto
  qed
qed

lemma costs_loop_eval:
  assumes "distinct (map fst xs)" and "fst ` set xs \<inter> fst ` set acc = {}"
    and "\<forall>(k, v)\<in>set xs. f k v = Inr (g k v)"
  shows "for_each xs (\<lambda>(k, v) costs. bind_err (f k v) (\<lambda>c. Inr (AList.update k c costs))) acc
           = Inr (acc @ map (\<lambda>(k, v). (k, g k v)) xs)"
  using assms
proof (induction xs arbitrary: acc)
  case Nil
  then show ?case by simp
next
  case (Cons x xs)
  obtain k v where x: "x = (k, v)" by (cases x)
  have upd: "AList.update k (g k v) acc = acc @ [(k, g k v)]"
    using Cons.prems(2) x by (induction acc) auto
  have "for_each xs (\<lambda>(k, v) costs. bind_err (f k v) (\<lambda>c. Inr (AList.update k c costs)))
          (acc @ [(k, g k v)])
        = Inr ((acc @ [(k, g k v)]) @ map (\<lambda>(k, v). (k, g k v)) xs)"
    using Cons.prems x by (intro Cons.IH) auto
  moreover have "f k v = Inr (g k v)" using Cons.prems(3) x by simp
  ultimately show ?case using x upd by simp
qed

lemma fold_plus_sum_list: "fold (\<lambda>c total. total + c) xs (a :: real) = a + sum_list xs"
  by (induction xs arbitrary: a) (simp_all add: add.assoc)

lemma block_cost_spec_alt:
  "block_cost_spec blocks ts b d =
     (if \<forall>a\<in>set (alphas d). 0 < overflow_spec blocks ts b a
      then (\<Sum>a \<leftarrow> alphas d. eps_at d a / overflow_spec blocks ts b a) else 0)"
  by (auto simp: block_cost_spec_def list_ex_iff not_less)

text \<open>
  For a task whose dictionaries are dictionaries, what the loops add up for a block and an
  alpha is the epsilon at that alpha of the task's demand on that block.
\<close>

lemma sum_list_single_key:
  "distinct (map fst xs) \<Longrightarrow>
   (\<Sum>(k', v) \<leftarrow> xs. if k' = k then f v else (0::real))
     = (case map_of xs k of None \<Rightarrow> 0 | Some v \<Rightarrow> f v)"
proof (induction xs)
  case Nil
  then show ?case by simp
next
  case (Cons x xs)
  obtain k' v where x: "x = (k', v)" by (cases x)
  show ?case
  proof (cases "k' = k")
    case True
    then have "k \<notin> fst ` set xs" using Cons.prems x by simp
    then have "map_of xs k = None" by (simp add: map_of_eq_None_iff)
    with Cons x True show ?thesis by simp
  next
    case False
    with Cons x show ?thesis by simp
  qed
qed

lemma demand_sum_dict:
  assumes "wf_task t"
  shows "demand_sum t b a = demand_on t b a"
proof -
  have inner: "(\<Sum>a' \<leftarrow> alphas d. if a' = a then eps_at d a' else 0)
                 = (case map_of (orders d) a of None \<Rightarrow> 0 | Some e \<Rightarrow> e)"
    if "is_dict (orders d)" for d :: "real budget"
  proof -
    have "(\<Sum>a' \<leftarrow> alphas d. if a' = a then eps_at d a' else 0)
            = (\<Sum>(a', e) \<leftarrow> orders d. if a' = a then eps_at d a else 0)"
      by (simp add: alphas_def comp_def case_prod_unfold cong: if_cong)
    also have "\<dots> = (case map_of (orders d) a of None \<Rightarrow> 0 | Some e \<Rightarrow> eps_at d a)"
      using that sum_list_single_key [of "orders d" a "\<lambda>e. eps_at d a"]
      by (simp add: is_dict_def)
    also have "\<dots> = (case map_of (orders d) a of None \<Rightarrow> 0 | Some e \<Rightarrow> e)"
      by (simp add: eps_at_def split: option.splits)
    finally show ?thesis .
  qed
  have "demand_sum t b a
          = (\<Sum>(b', d) \<leftarrow> budget_per_block t.
               if b' = b then (\<Sum>a' \<leftarrow> alphas d. if a' = a then eps_at d a' else 0) else 0)"
    unfolding demand_sum_def
    by (intro arg_cong [where f = sum_list] map_cong refl) (auto simp: case_prod_unfold)
  also have "\<dots> = (case map_of (budget_per_block t) b of
              None \<Rightarrow> 0
            | Some d \<Rightarrow> (\<Sum>a' \<leftarrow> alphas d. if a' = a then eps_at d a' else 0))"
    using assms
      sum_list_single_key [of "budget_per_block t" b
        "\<lambda>d. \<Sum>a' \<leftarrow> alphas d. if a' = a then eps_at d a' else 0"]
    by (simp add: wf_task_def is_dict_def)
  also have "\<dots> = (case map_of (budget_per_block t) b of
              None \<Rightarrow> 0
            | Some d \<Rightarrow> (case map_of (orders d) a of None \<Rightarrow> 0 | Some e \<Rightarrow> e))"
  proof (cases "map_of (budget_per_block t) b")
    case None
    then show ?thesis by simp
  next
    case (Some d)
    then have "(b, d) \<in> set (budget_per_block t)" by (rule map_of_SomeD)
    then have "is_dict (orders d)"
      using assms by (auto simp: wf_task_def list_all_iff)
    with Some inner show ?thesis by simp
  qed
  finally show ?thesis by (simp add: demand_on_def)
qed


section \<open>\<open>BatchOverflowRelevance\<close>\<close>

lemma compute_overflow_shifted:
  "compute_overflow self blocks PyNone = Inl TypeError"
  by (simp add: compute_overflow_def)

text \<open>
  C10. For every task, block map and pending-task list, calling
  \<open>BatchOverflowRelevance.apply\<close> without a precomputed overflow dictionary (\<open>overflow\<close>
  absent or empty) raises an exception (\<open>TypeError\<close>) before returning any rank: the
  fallback invokes \<open>compute_overflow\<close> with shifted arguments (the blocks bound as \<open>self\<close>,
  \<open>tasks\<close> left \<open>None\<close>). Only a call supplied with a non-empty precomputed overflow
  dictionary can return a value.
\<close>

theorem BatchOverflowRelevance_apply_needs_overflow:
  "(overflow = None \<or> overflow = Some [] \<longrightarrow>
      BatchOverflowRelevance_apply t blocks tasks overflow = Inl TypeError)
   \<and> (BatchOverflowRelevance_apply t blocks tasks overflow = Inr r \<longrightarrow>
        (\<exists>precomputed. overflow = Some precomputed \<and> precomputed \<noteq> []))"
proof -
  have 1: "BatchOverflowRelevance_apply t blocks tasks None = Inl TypeError"
    by (simp add: BatchOverflowRelevance_apply_def compute_overflow_shifted)
  have 2: "BatchOverflowRelevance_apply t blocks tasks (Some []) = Inl TypeError"
    by (simp add: BatchOverflowRelevance_apply_def compute_overflow_shifted)
  show ?thesis
  proof (cases overflow)
    case None
    with 1 show ?thesis by simp
  next
    case (Some ov)
    with 2 show ?thesis by (cases "ov = []") simp_all
  qed
qed

theorem BatchOverflowRelevance_apply_needs_overflow_witness:
  "BatchOverflowRelevance_apply
     \<lparr>task_id = 0, profit = 6, budget_per_block = [(0, Budget_init [(2, 2), (3, 3)])],
      cost = Fin 0, demand_matrix = NdArray []\<rparr>
     [(0, \<lparr>initial_budget = Budget_init [(2, 1), (3, 1)],
           available_unlocked_budget = Budget_init [(2, 1), (3, 0)],
           truncated_available_unlocked_budget = Budget_init [(2, 1), (3, 0)]\<rparr>)]
     (Some [\<lparr>task_id = 0, profit = 6, budget_per_block = [(0, Budget_init [(2, 2), (3, 3)])],
             cost = Fin 0, demand_matrix = NdArray []\<rparr>])
     None
   = Inl TypeError
   \<and> BatchOverflowRelevance_apply
     \<lparr>task_id = 0, profit = 6, budget_per_block = [(0, Budget_init [(2, 2), (3, 3)])],
      cost = Fin 0, demand_matrix = NdArray []\<rparr>
     [(0, \<lparr>initial_budget = Budget_init [(2, 1), (3, 1)],
           available_unlocked_budget = Budget_init [(2, 1), (3, 0)],
           truncated_available_unlocked_budget = Budget_init [(2, 1), (3, 0)]\<rparr>)]
     (Some [\<lparr>task_id = 0, profit = 6, budget_per_block = [(0, Budget_init [(2, 2), (3, 3)])],
             cost = Fin 0, demand_matrix = NdArray []\<rparr>])
     (Some [(0, [(2, Fin 1), (3, PInf)])])
   = Inr (Fin 3,
          \<lparr>task_id = 0, profit = 6, budget_per_block = [(0, Budget_init [(2, 2), (3, 3)])],
           cost = Fin 2, demand_matrix = NdArray []\<rparr>)"
proof -
  let ?t = "\<lparr>task_id = 0, profit = 6, budget_per_block = [(0, Budget_init [(2, 2), (3, 3)])],
      cost = Fin 0, demand_matrix = NdArray []\<rparr>"
  let ?blocks = "[(0 :: int, \<lparr>initial_budget = Budget_init [(2, 1), (3, 1)],
           available_unlocked_budget = Budget_init [(2, 1), (3, 0)],
           truncated_available_unlocked_budget = Budget_init [(2, 1), (3, 0)]\<rparr>)]"
  have run: "BatchOverflowRelevance_apply ?t ?blocks (Some [?t]) (Some [(0, [(2, Fin 1), (3, PInf)])])
        = Inr (Fin 3, ?t\<lparr>cost := Fin 2\<rparr>)"
    by (simp add: BatchOverflowRelevance_apply_def Budget_init_def alphas_def epsilon_def
        dict_get_def py_truediv_def pf_le_def)
  from BatchOverflowRelevance_apply_needs_overflow [of None ?t ?blocks "Some [?t]"]
    BatchOverflowRelevance_apply_needs_overflow
      [of "Some [(0, [(2, Fin 1), (3, PInf)])]" ?t ?blocks "Some [?t]" "(Fin 3, ?t\<lparr>cost := Fin 2\<rparr>)"]
  show ?thesis using run by simp
qed
section \<open>\<open>SoftmaxOverflow\<close>\<close>

lemma collect_map_ok:
  "\<forall>i\<in>set js. f (h i) = Inr (g i) \<Longrightarrow> collect (map h js) f = Inr (map g js)"
  by (induction js) simp_all

lemma py_range_nat: "py_range 0 (int n) = map int [0..<n]"
proof (induction n)
  case 0
  then show ?case by (simp add: py_range_def)
next
  case (Suc n)
  have "[0..int (Suc n) - 1] = [0..int n - 1] @ [int n]"
    using upto_rec2 [of 0 "int n"] by simp
  with Suc show ?case by (simp add: py_range_def)
qed

lemma ALPHAS_nth: "ALPHAS = map (\<lambda>i. ALPHAS ! i) [0..<length ALPHAS]"
  by (simp add: map_nth)

lemma available_budget_entry_ok:
  assumes "map_of blocks (int b) = Some blk"
    and "ALPHAS ! i \<in> set (alphas (read_budget tr blk))"
  shows "available_budget_entry tr blocks (int b) (ALPHAS ! i) = Inr (available_at tr blocks b i)"
  using assms
  by (auto simp: available_budget_entry_def available_at_def read_budget_def dict_get_def
      epsilon_in_support Let_def)

lemma available_budget_matrix_ok:
  assumes "blocks_ok tr blocks"
  shows "available_budget_matrix tr blocks
           = Inr (tab (length blocks) (length ALPHAS) (available_at tr blocks))"
proof -
  have row: "collect ALPHAS (available_budget_entry tr blocks (int b))
               = Inr (map (available_at tr blocks b) [0..<length ALPHAS])"
    if "b < length blocks" for b
  proof -
    from assms that have "case map_of blocks (int b) of
        None \<Rightarrow> False
      | Some blk \<Rightarrow> list_all (\<lambda>a. a \<in> set (alphas (read_budget tr blk))) ALPHAS"
      by (simp add: blocks_ok_def list_all_iff)
    then obtain blk where blk: "map_of blocks (int b) = Some blk"
      "\<forall>a\<in>set ALPHAS. a \<in> set (alphas (read_budget tr blk))"
      by (cases "map_of blocks (int b)") (auto simp: list_all_iff)
    have "collect (map (\<lambda>i. ALPHAS ! i) [0..<length ALPHAS])
            (available_budget_entry tr blocks (int b))
          = Inr (map (available_at tr blocks b) [0..<length ALPHAS])"
    proof (rule collect_map_ok, rule ballI)
      fix i assume "i \<in> set [0..<length ALPHAS]"
      then have "ALPHAS ! i \<in> set ALPHAS" by simp
      with blk show "available_budget_entry tr blocks (int b) (ALPHAS ! i)
                       = Inr (available_at tr blocks b i)"
        by (intro available_budget_entry_ok) auto
    qed
    then show ?thesis
      by (simp only: ALPHAS_nth [symmetric])
  qed
  have "collect (map int [0..<length blocks])
          (\<lambda>block_id. collect ALPHAS (available_budget_entry tr blocks block_id))
        = Inr (map (\<lambda>b. map (available_at tr blocks b) [0..<length ALPHAS]) [0..<length blocks])"
    by (rule collect_map_ok) (simp add: row)
  then show ?thesis
    by (simp add: available_budget_matrix_def py_range_nat tab_def)
qed

lemma map_length_tab [simp]: "map length (tab n k F) = replicate n k"
  by (simp add: tab_def comp_def map_replicate_const)

lemma shape_tab:
  assumes "map length m = replicate n k"
  shows "m = tab n k (\<lambda>b i. m ! b ! i)"
proof -
  have len: "length m = n"
    using assms by (metis length_map length_replicate)
  have rows: "length (m ! b) = k" if "b < n" for b
  proof -
    have "map length m ! b = k" using assms that by simp
    then show ?thesis using that len by simp
  qed
  have row: "map ((!) (m ! b)) [0..<k] = m ! b" if "b < n" for b
    using rows [OF that] map_nth [of "m ! b"] by simp
  show ?thesis
    unfolding tab_def
    by (rule nth_equalityI) (simp_all add: len row)
qed

lemma map2_tab:
  "map2 (map2 h) (tab n k F) (tab n k G) = tab n k (\<lambda>b i. h (F b i) (G b i))"
  by (simp add: tab_def map2_map_map)

lemma mat_add_tab: "mat_add (tab n k F) (tab n k G) = Inr (tab n k (\<lambda>b i. F b i + G b i))"
  by (simp add: mat_add_def map2_tab)

lemma sum_demand_matrices_Some:
  assumes "tasks_ok n ts"
  shows "sum_demand_matrices ts (Some (tab n (length ALPHAS) F))
           = Inr (Some (tab n (length ALPHAS) (\<lambda>b i. F b i + summed_demand ts b i)))"
  using assms
proof (induction ts arbitrary: F)
  case Nil
  then show ?case by (simp add: summed_demand_def)
next
  case (Cons t ts)
  from Cons.prems obtain m where m: "demand_matrix t = SparseMatrix m"
    "map length m = replicate n (length ALPHAS)" and rest: "tasks_ok n ts"
    by (auto simp: tasks_ok_def split: demand_matrix_t.splits)
  have "demand_entry t = (\<lambda>b i. m ! b ! i)"
    by (simp add: demand_entry_def m(1) fun_eq_iff)
  then have mt: "m = tab n (length ALPHAS) (demand_entry t)"
    using shape_tab [OF m(2)] by simp
  have add: "mat_add (tab n (length ALPHAS) F) m
               = Inr (tab n (length ALPHAS) (\<lambda>b i. F b i + demand_entry t b i))"
    by (subst mt) (rule mat_add_tab)
  have "sum_demand_matrices ts (Some (tab n (length ALPHAS) (\<lambda>b i. F b i + demand_entry t b i)))
        = Inr (Some (tab n (length ALPHAS)
                 (\<lambda>b i. F b i + demand_entry t b i + summed_demand ts b i)))"
    by (rule Cons.IH [OF rest])
  then show ?case
    using m(1) add by (simp add: toarray_def summed_demand_def add.assoc)
qed

lemma sum_demand_matrices_None:
  assumes "tasks_ok n ts"
  shows "sum_demand_matrices ts None
           = Inr (if ts = [] then None else Some (tab n (length ALPHAS) (summed_demand ts)))"
proof (cases ts)
  case Nil
  then show ?thesis by simp
next
  case (Cons t ts')
  from assms Cons obtain m where m: "demand_matrix t = SparseMatrix m"
    "map length m = replicate n (length ALPHAS)" and rest: "tasks_ok n ts'"
    by (auto simp: tasks_ok_def split: demand_matrix_t.splits)
  have "demand_entry t = (\<lambda>b i. m ! b ! i)"
    by (simp add: demand_entry_def m(1) fun_eq_iff)
  then have mt: "m = tab n (length ALPHAS) (demand_entry t)"
    using shape_tab [OF m(2)] by simp
  have "sum_demand_matrices ts' (Some (tab n (length ALPHAS) (demand_entry t)))
        = Inr (Some (tab n (length ALPHAS) (\<lambda>b i. demand_entry t b i + summed_demand ts' b i)))"
    by (rule sum_demand_matrices_Some [OF rest])
  then have "sum_demand_matrices ts' (Some m)
        = Inr (Some (tab n (length ALPHAS) (\<lambda>b i. demand_entry t b i + summed_demand ts' b i)))"
    using mt by simp
  moreover have "summed_demand (t # ts') = (\<lambda>b i. demand_entry t b i + summed_demand ts' b i)"
    by (simp add: summed_demand_def fun_eq_iff)
  ultimately show ?thesis
    using Cons m(1) by (simp add: toarray_def)
qed

lemma overflow_matrix_ok:
  assumes "tasks_ok n ts"
  shows "bind_err (sum_demand_matrices ts None)
           (\<lambda>sd. overflow_matrix sd (tab n (length ALPHAS) (available_at tr blocks)))
         = Inr (tab n (length ALPHAS) (overflow_at tr blocks ts))"
proof (cases "ts = []")
  case True
  then show ?thesis
    by (simp add: overflow_matrix_def tab_def overflow_at_def summed_demand_def comp_def)
next
  case False
  then show ?thesis
    using sum_demand_matrices_None [OF assms]
    by (simp add: overflow_matrix_def map2_tab overflow_at_def [abs_def])
qed

lemma available_at_cases:
  "(\<exists>e. available_at tr blocks b i = Fin e) \<or> available_at tr blocks b i = NInf"
  by (simp add: available_at_def Let_def)

lemma overflow_at_no_nan:
  "overflow_at tr blocks ts b i \<noteq> NaN \<and> overflow_at tr blocks ts b i \<noteq> NInf"
  using available_at_cases [of tr blocks b i]
  by (auto simp: overflow_at_def pf_sub_def)

lemma pf_le_zero_iff: "y \<noteq> NaN \<Longrightarrow> pf_le y (Fin 0) \<longleftrightarrow> \<not> pf_less (Fin 0) y"
  by (cases y) (auto simp: pf_le_def)

lemma np_min_from_le:
  "\<forall>y\<in>set (m # xs). y \<noteq> NaN \<Longrightarrow>
   np_min_from m xs \<noteq> NaN
   \<and> (pf_le (np_min_from m xs) (Fin 0) \<longleftrightarrow> (\<exists>y\<in>set (m # xs). pf_le y (Fin 0)))"
proof (induction xs arbitrary: m)
  case Nil
  then show ?case by simp
next
  case (Cons x xs)
  let ?m' = "if pf_less x m then x else m"
  have nn: "m \<noteq> NaN" "x \<noteq> NaN" using Cons.prems by simp_all
  have step: "np_min_from m (x # xs) = np_min_from ?m' xs"
    using nn by simp
  have "\<forall>y\<in>set (?m' # xs). y \<noteq> NaN" using Cons.prems by simp
  from Cons.IH [OF this] have ih: "np_min_from ?m' xs \<noteq> NaN"
    "pf_le (np_min_from ?m' xs) (Fin 0) \<longleftrightarrow> (\<exists>y\<in>set (?m' # xs). pf_le y (Fin 0))"
    by simp_all
  have "pf_le ?m' (Fin 0) \<longleftrightarrow> pf_le x (Fin 0) \<or> pf_le m (Fin 0)"
    using nn by (cases x; cases m) (auto simp: pf_le_def)
  with ih step show ?case by auto
qed

lemma drop_no_contention_row:
  assumes "row \<noteq> []" and "\<forall>y\<in>set row. y \<noteq> NaN"
  shows "drop_no_contention row
           = Inr (if list_all (\<lambda>y. pf_less (Fin 0) y) row then row else map (\<lambda>_. NaN) row)"
proof -
  from assms(1) obtain x xs where row: "row = x # xs" by (cases row) auto
  from np_min_from_le [of x xs] assms(2) row
  have "pf_le (np_min_from x xs) (Fin 0) \<longleftrightarrow> (\<exists>y\<in>set row. pf_le y (Fin 0))"
    by simp
  also have "\<dots> \<longleftrightarrow> \<not> list_all (\<lambda>y. pf_less (Fin 0) y) row"
    using assms(2) by (auto simp: list_all_iff pf_le_zero_iff)
  finally show ?thesis
    by (simp add: drop_no_contention_def np_min_def row)
qed

lemma exp_weight:
  "0 < tau \<Longrightarrow> x \<noteq> NaN \<Longrightarrow> x \<noteq> NInf \<Longrightarrow>
   pf_exp (pf_mul (Fin (- tau)) x) = Fin (weight tau x)"
  by (cases x) (simp_all add: weight_def)

lemma fold_pf_add_Fin:
  "fold (\<lambda>x s. pf_add s x) (map Fin ws) (Fin a) = Fin (a + sum_list ws)"
  by (induction ws arbitrary: a) (simp_all add: add.assoc)

lemma weight_nonneg: "0 \<le> weight tau x"
  by (cases x) (simp_all add: weight_def)

lemma relevance_row_ok:
  assumes "0 < tau" and "\<forall>y\<in>set row. y \<noteq> NaN \<and> y \<noteq> NInf" and "length avail = length row"
  shows "relevance_row tau row avail
           = map (\<lambda>i. pf_div (Fin (softmax_code tau row i)) (avail ! i)) [0..<length row]"
proof -
  let ?ws = "map (weight tau) row"
  have ex: "map (\<lambda>x. pf_exp (pf_mul (Fin (- tau)) x)) row = map Fin ?ws"
    using assms(1,2) by (simp add: exp_weight)
  have "0 \<le> sum_list ?ws"
    by (rule sum_list_nonneg) (auto simp: weight_nonneg)
  then have pos: "sum_list ?ws + 1 / 10 ^ 15 \<noteq> 0"
    by (smt (verit) divide_pos_pos zero_less_numeral zero_less_one zero_less_power)
  have total: "pf_add (fold (\<lambda>x s. pf_add s x) (map Fin ?ws) (Fin 0)) (Fin (1 / 10 ^ 15))
                 = Fin (sum_list ?ws + 1 / 10 ^ 15)"
    unfolding fold_pf_add_Fin by simp
  have soft: "map (\<lambda>e. pf_div e (Fin (sum_list ?ws + 1 / 10 ^ 15))) (map Fin ?ws)
                = map (\<lambda>i. Fin (softmax_code tau row i)) [0..<length row]"
    using pos by (intro nth_equalityI) (simp_all add: softmax_code_def)
  have "map2 pf_div (map (\<lambda>i. Fin (softmax_code tau row i)) [0..<length row]) avail
          = map (\<lambda>i. pf_div (Fin (softmax_code tau row i)) (avail ! i)) [0..<length row]"
    using assms(3) by (intro nth_equalityI) simp_all
  then show ?thesis
    unfolding relevance_row_def Let_def ex total soft .
qed

lemma relevance_row_nan:
  assumes "length avail = length row"
  shows "relevance_row tau (map (\<lambda>_. NaN) row) avail = map (\<lambda>_. NaN) row"
proof -
  have f: "fold (\<lambda>x s. pf_add s x) (map (\<lambda>_. NaN) xs) NaN = NaN" for xs :: "pyfloat list"
    by (induction xs) simp_all
  have s: "fold (\<lambda>x s. pf_add s x) (map (\<lambda>_. NaN) xs) (Fin 0) = (if xs = [] then Fin 0 else NaN)"
    for xs :: "pyfloat list"
    by (cases xs) (simp_all add: f)
  show ?thesis
    using assms
    by (intro nth_equalityI) (simp_all add: relevance_row_def Let_def comp_def s)
qed

lemma length_ALPHAS: "length ALPHAS = 12"
  by (simp add: ALPHAS_def)

lemma bind_err_assoc:
  "bind_err (bind_err m f) g = bind_err m (\<lambda>x. bind_err (f x) g)"
  by (cases m) simp_all

text \<open>
  Every row of the result: \<open>nan\<close> throughout for a block that is dropped, the regularised
  softmax over the available budget for the others.
\<close>

lemma compute_relevance_matrix_rows:
  assumes "0 < tau" and "blocks_ok tr blocks" and "tasks_ok (length blocks) ts"
  shows "SoftmaxOverflow_compute_relevance_matrix blocks (Some ts) dr tr tau =
     Inr (map (\<lambda>b. if dr \<and> \<not> contention tr blocks ts b
                     then replicate (length ALPHAS) NaN
                     else map (\<lambda>i. pf_div (Fin (softmax_code tau (overflow_row_at tr blocks ts b) i))
                                   (available_at tr blocks b i))
                            [0..<length ALPHAS])
            [0..<length blocks])"
proof -
  let ?n = "length blocks" and ?k = "length ALPHAS"
  let ?row = "overflow_row_at tr blocks ts"
  let ?av = "\<lambda>b. map (available_at tr blocks b) [0..<?k]"
  let ?kept = "\<lambda>b. if dr \<and> \<not> contention tr blocks ts b then map (\<lambda>_. NaN) (?row b) else ?row b"
  have O: "tab ?n ?k (overflow_at tr blocks ts) = map ?row [0..<?n]"
    by (simp add: tab_def overflow_row_at_def)
  have nonempty: "?row b \<noteq> []" for b
    by (simp add: overflow_row_at_def length_ALPHAS)
  have clean: "\<forall>y\<in>set (?row b). y \<noteq> NaN \<and> y \<noteq> NInf" for b
    by (auto simp: overflow_row_at_def overflow_at_no_nan)
  have cont: "list_all (\<lambda>y. pf_less (Fin 0) y) (?row b) = contention tr blocks ts b" for b
    by (simp add: overflow_row_at_def contention_def list_all_iff)
  have dropped: "collect (map ?row [0..<?n]) drop_no_contention
                   = Inr (map (\<lambda>b. if \<not> contention tr blocks ts b then map (\<lambda>_. NaN) (?row b)
                                    else ?row b) [0..<?n])"
  proof (rule collect_map_ok, rule ballI)
    fix b
    from clean [of b] have "\<forall>y\<in>set (?row b). y \<noteq> NaN" by blast
    from drop_no_contention_row [OF nonempty this]
    show "drop_no_contention (?row b)
            = Inr (if \<not> contention tr blocks ts b then map (\<lambda>_. NaN) (?row b) else ?row b)"
      by (simp add: cont)
  qed
  have stage: "bind_err (if dr then collect (map ?row [0..<?n]) drop_no_contention
                         else Inr (map ?row [0..<?n])) f
               = f (map ?kept [0..<?n])" for f :: "pyfloat list list \<Rightarrow> py_error + pyfloat list list"
    by (simp add: dropped)
  have rowres: "relevance_row tau (?kept b) (?av b)
                  = (if dr \<and> \<not> contention tr blocks ts b then replicate ?k NaN
                     else map (\<lambda>i. pf_div (Fin (softmax_code tau (?row b) i))
                                   (available_at tr blocks b i)) [0..<?k])" for b
  proof (cases "dr \<and> \<not> contention tr blocks ts b")
    case True
    have "relevance_row tau (map (\<lambda>_. NaN) (?row b)) (?av b) = map (\<lambda>_. NaN) (?row b)"
      by (rule relevance_row_nan) (simp add: overflow_row_at_def)
    also have "\<dots> = replicate ?k NaN"
      by (simp add: map_replicate_const overflow_row_at_def)
    finally show ?thesis using True by simp
  next
    case False
    have len: "length (?row b) = ?k" by (simp add: overflow_row_at_def)
    have "relevance_row tau (?row b) (?av b)
            = map (\<lambda>i. pf_div (Fin (softmax_code tau (?row b) i)) (?av b ! i)) [0..<length (?row b)]"
      using assms(1) clean [of b] by (intro relevance_row_ok) (simp_all add: len)
    also have "\<dots> = map (\<lambda>i. pf_div (Fin (softmax_code tau (?row b) i))
                                   (available_at tr blocks b i)) [0..<?k]"
      unfolding len by (rule map_cong) simp_all
    finally show ?thesis using False by auto
  qed
  have final: "map2 (relevance_row tau) (map ?kept [0..<?n]) (tab ?n ?k (available_at tr blocks))
                 = map (\<lambda>b. relevance_row tau (?kept b) (?av b)) [0..<?n]"
    by (simp add: tab_def map2_map_map)
  let ?K = "\<lambda>overflow. bind_err (if dr then collect overflow drop_no_contention else Inr overflow)
              (\<lambda>overflow. Inr (map2 (relevance_row tau) overflow
                                 (tab ?n ?k (available_at tr blocks))))"
  have "SoftmaxOverflow_compute_relevance_matrix blocks (Some ts) dr tr tau
          = bind_err (sum_demand_matrices ts None)
              (\<lambda>sd. bind_err (overflow_matrix sd (tab ?n ?k (available_at tr blocks))) ?K)"
    by (simp add: SoftmaxOverflow_compute_relevance_matrix_def
        available_budget_matrix_ok [OF assms(2)])
  also have "\<dots> = bind_err (bind_err (sum_demand_matrices ts None)
                        (\<lambda>sd. overflow_matrix sd (tab ?n ?k (available_at tr blocks)))) ?K"
    by (rule bind_err_assoc [symmetric])
  also have "\<dots> = ?K (map ?row [0..<?n])"
    by (simp only: overflow_matrix_ok [OF assms(3)] bind_err_simps O)
  also have "\<dots> = Inr (map2 (relevance_row tau) (map ?kept [0..<?n])
                        (tab ?n ?k (available_at tr blocks)))"
    by (rule stage)
  finally have "SoftmaxOverflow_compute_relevance_matrix blocks (Some ts) dr tr tau
          = Inr (map (\<lambda>b. relevance_row tau (?kept b) (?av b)) [0..<?n])"
    by (simp only: final)
  then show ?thesis
    by (simp only: rowres)
qed


lemma sorted_ALPHAS: "sorted ALPHAS" and distinct_ALPHAS: "distinct ALPHAS"
  by (simp_all add: ALPHAS_def)

lemma uniform_budget_tabulate: "uniform_budget e = tabulate ALPHAS (\<lambda>_. e)"
  unfolding uniform_budget_def
  by (rule Budget_init_tabulate) (rule sorted_ALPHAS, rule distinct_ALPHAS)

lemma eps_at_uniform: "i < length ALPHAS \<Longrightarrow> eps_at (uniform_budget e) (ALPHAS ! i) = e"
proof -
  assume "i < length ALPHAS"
  then have m: "ALPHAS ! i \<in> set ALPHAS" by simp
  then have "epsilon (uniform_budget e) (ALPHAS ! i) = Inr e"
    unfolding uniform_budget_tabulate by (rule epsilon_tabulate)
  moreover have "epsilon (uniform_budget e) (ALPHAS ! i)
                   = Inr (eps_at (uniform_budget e) (ALPHAS ! i))"
    using m by (intro epsilon_in_support) (simp add: uniform_budget_tabulate)
  ultimately show ?thesis by simp
qed

lemma two_blocks_available:
  "b < 2 \<Longrightarrow> i < length ALPHAS \<Longrightarrow> available_at False two_blocks b i = Fin 1"
proof -
  assume b: "b < 2" and i: "i < length ALPHAS"
  from b have "b = 0 \<or> b = 1" by auto
  then have "map_of two_blocks (int b) = Some (uniform_block 1)"
    by (auto simp: two_blocks_def)
  then show ?thesis
    using i by (simp add: available_at_def read_budget_def uniform_block_def eps_at_uniform)
qed

lemma two_blocks_ok: "blocks_ok False two_blocks"
  by (simp add: blocks_ok_def two_blocks_def read_budget_def uniform_block_def
      uniform_budget_tabulate list_all_iff numeral_2_eq_2)

lemma one_task_ok: "tasks_ok (length two_blocks) [one_task]"
  by (simp add: tasks_ok_def one_task_def two_blocks_def length_ALPHAS numeral_2_eq_2)

lemma one_task_overflow:
  assumes "i < length ALPHAS"
  shows "overflow_at False two_blocks [one_task] 0 i = Fin (- (1 / 2))"
    and "overflow_at False two_blocks [one_task] 1 i = Fin 1"
  using assms
  by (simp_all add: overflow_at_def two_blocks_available summed_demand_def demand_entry_def
      one_task_def pf_sub_def length_ALPHAS)

lemma one_task_rows:
  "overflow_row_at False two_blocks [one_task] 0 = replicate 12 (Fin (- (1 / 2)))"
  "overflow_row_at False two_blocks [one_task] 1 = replicate 12 (Fin 1)"
proof -
  have "map (overflow_at False two_blocks [one_task] 0) [0..<length ALPHAS]
          = map (\<lambda>_. Fin (- (1 / 2))) [0..<length ALPHAS]"
    by (rule map_cong) (simp_all add: one_task_overflow)
  then show "overflow_row_at False two_blocks [one_task] 0 = replicate 12 (Fin (- (1 / 2)))"
    by (simp add: overflow_row_at_def map_replicate_const length_ALPHAS)
  have "map (overflow_at False two_blocks [one_task] 1) [0..<length ALPHAS]
          = map (\<lambda>_. Fin 1) [0..<length ALPHAS]"
    by (rule map_cong) (simp_all add: one_task_overflow del: One_nat_def)
  then show "overflow_row_at False two_blocks [one_task] 1 = replicate 12 (Fin 1)"
    by (simp add: overflow_row_at_def map_replicate_const length_ALPHAS)
qed

lemma one_task_contention:
  "\<not> contention False two_blocks [one_task] 0" "contention False two_blocks [one_task] 1"
proof -
  have "list_all (\<lambda>y. pf_less (Fin 0) y) (overflow_row_at False two_blocks [one_task] b)
          = contention False two_blocks [one_task] b" for b
    by (simp add: overflow_row_at_def contention_def list_all_iff)
  then have c: "contention False two_blocks [one_task] b
          = list_all (\<lambda>y. pf_less (Fin 0) y) (overflow_row_at False two_blocks [one_task] b)" for b
    by simp
  show "\<not> contention False two_blocks [one_task] 0"
    unfolding c one_task_rows by (simp add: list_all_iff)
  show "contention False two_blocks [one_task] 1"
    unfolding c one_task_rows by (simp add: list_all_iff)
qed

lemma softmax_uniform:
  "i < 12 \<Longrightarrow> softmax_code tau (replicate 12 (Fin 1)) i
     = exp (- tau) / (12 * exp (- tau) + 1 / 10 ^ 15)"
  "i < 12 \<Longrightarrow> softmax_spec tau (replicate 12 (Fin 1)) i = 1 / 12"
  by (simp_all add: softmax_code_def softmax_spec_def weight_def sum_list_replicate)



end
